theory Spec2Isabelle
  imports Complex_Main "HOL-Library.AList" "HOL-Library.Multiset" "HOL-Library.Sublist"
begin

section \<open>JavaScript values as the relay delivers them\<close>

text \<open>
  Everything \<open>fetch-blossom-servers.js\<close> reads from the network went through
  \<open>JSON.parse\<close>, so a value is \<open>null\<close>, a boolean, a number, a string, an array or a
  plain object; \<open>undefined\<close> appears when a property or an array slot is missing.
  An object is the association list of its own properties (a lookup takes the first
  binding of a key). A string is the list of its code units. A number is finite
  (\<open>JNum\<close>, with both zeros as \<open>0\<close>) or one of the infinities that \<open>JSON.parse\<close> makes
  of a literal beyond the range of doubles (\<open>JInf True\<close> is \<open>+Infinity\<close>).
\<close>

datatype jsval =
    JUndefined
  | JNull
  | JBool bool
  | JNum rat
  | JInf bool
  | JStr string
  | JArr "jsval list"
  | JObj "(string \<times> jsval) list"

datatype exn = TypeError | SyntaxError | Error string

text \<open>\<open>ToBoolean\<close>: what \<open>!v\<close> and \<open>v ? a : b\<close> test.\<close>

fun truthy :: "jsval \<Rightarrow> bool" where
  "truthy JUndefined = False"
| "truthy JNull = False"
| "truthy (JBool b) = b"
| "truthy (JNum q) = (q \<noteq> 0)"
| "truthy (JInf b) = True"
| "truthy (JStr s) = (s \<noteq> [])"
| "truthy (JArr xs) = True"
| "truthy (JObj kvs) = True"

text \<open>
  A property key that is a canonical array index (\<open>"0"\<close>, \<open>"1"\<close>, \<open>"12"\<close>; not \<open>"01"\<close>)
  addresses an element of an array or a code unit of a string.
\<close>

definition is_digit :: "char \<Rightarrow> bool" where
  "is_digit c = (48 \<le> (of_char c :: nat) \<and> (of_char c :: nat) \<le> 57)"

definition index_of_key :: "string \<Rightarrow> nat option" where
  "index_of_key k =
     (if k \<noteq> [] \<and> list_all is_digit k \<and> (k = ''0'' \<or> hd k \<noteq> CHR ''0'')
      then Some (foldl (\<lambda>n c. 10 * n + (of_char c - 48)) 0 k)
      else None)"

text \<open>
  Property read \<open>v[k]\<close> / \<open>v.k\<close> for the keys this program reads (\<open>tags\<close>, \<open>pubkey\<close>,
  \<open>created_at\<close>, \<open>id\<close>, \<open>0\<close>, \<open>1\<close>, \<open>2\<close>), none of which is inherited from a prototype:
  reading a property of \<open>undefined\<close> or \<open>null\<close> throws a TypeError, a missing property is
  \<open>undefined\<close>.
\<close>

fun get :: "jsval \<Rightarrow> string \<Rightarrow> exn + jsval" where
  "get JUndefined k = Inl TypeError"
| "get JNull k = Inl TypeError"
| "get (JBool b) k = Inr JUndefined"
| "get (JNum q) k = Inr JUndefined"
| "get (JInf b) k = Inr JUndefined"
| "get (JStr s) k =
     (case index_of_key k of
        None \<Rightarrow> Inr JUndefined
      | Some i \<Rightarrow> Inr (if i < length s then JStr [s ! i] else JUndefined))"
| "get (JArr xs) k =
     (case index_of_key k of
        None \<Rightarrow> Inr JUndefined
      | Some i \<Rightarrow> Inr (if i < length xs then xs ! i else JUndefined))"
| "get (JObj kvs) k =
     (case map_of kvs k of None \<Rightarrow> Inr JUndefined | Some v \<Rightarrow> Inr v)"

text \<open>
  \<open>Array.prototype.find\<close>: the first element on which the callback is truthy, \<open>undefined\<close>
  when there is none; an exception of the callback ends the search and propagates.
\<close>

fun array_find :: "(jsval \<Rightarrow> exn + bool) \<Rightarrow> jsval list \<Rightarrow> exn + jsval" where
  "array_find cb [] = Inr JUndefined"
| "array_find cb (x # xs) =
     (case cb x of
        Inl e \<Rightarrow> Inl e
      | Inr b \<Rightarrow> if b then Inr x else array_find cb xs)"

text \<open>
  The method call \<open>v.find(cb)\<close>: only an array has a callable \<open>find\<close>; on every other
  parsed value \<open>v.find\<close> is \<open>undefined\<close> or plain data, and calling it throws.
\<close>

fun call_find :: "jsval \<Rightarrow> (jsval \<Rightarrow> exn + bool) \<Rightarrow> exn + jsval" where
  "call_find (JArr xs) cb = array_find cb xs"
| "call_find v cb = Inl TypeError"

text \<open>
  Sequencing of statements that may throw: the first exception ends the block.
\<close>

definition and_then :: "exn + 'a \<Rightarrow> ('a \<Rightarrow> exn + 'b) \<Rightarrow> exn + 'b" where
  "and_then r f = (case r of Inl e \<Rightarrow> Inl e | Inr v \<Rightarrow> f v)"

text \<open>The callback \<open>tag => tag[0] === k\<close>.\<close>

definition tag_is :: "string \<Rightarrow> jsval \<Rightarrow> exn + bool" where
  "tag_is k tag = and_then (get tag ''0'') (\<lambda>v. Inr (v = JStr k))"

text \<open>
  The method call \<open>v.startsWith(p)\<close>: only a string has a callable \<open>startsWith\<close>; the
  string itself is handed on to the continuation.
\<close>

fun call_startsWith :: "jsval \<Rightarrow> string \<Rightarrow> exn + (string \<times> bool)" where
  "call_startsWith (JStr u) p = Inr (u, prefix p u)"
| "call_startsWith v p = Inl TypeError"

section \<open>Server records and the event parser\<close>

text \<open>
  The object literal returned by \<open>parseBlossomServer\<close>. Only \<open>url\<close> is known to be a
  string; the other fields are whatever the event holds.
\<close>

record server =
  url :: string
  name :: jsval
  description :: jsval
  pubkey :: jsval
  created_at :: jsval
  event_id :: jsval

text \<open>The conditional \<open>tag ? tag[1] : null\<close>.\<close>

definition second_or_null :: "jsval \<Rightarrow> exn + jsval" where
  "second_or_null tag = (if truthy tag then get tag ''1'' else Inr JNull)"

text \<open>The body of the \<open>try\<close> block of \<open>parseBlossomServer\<close>.\<close>

definition parse_body :: "jsval \<Rightarrow> exn + server option" where
  "parse_body event =
     and_then (get event ''tags'') (\<lambda>tags.
     and_then (call_find tags (tag_is ''d'')) (\<lambda>dTag.
     if \<not> truthy dTag then Inr None else
     and_then (get dTag ''1'') (\<lambda>serverUrl.
     if \<not> truthy serverUrl then Inr None else
     and_then (call_startsWith serverUrl ''https://'') (\<lambda>(u, secure).
     if \<not> secure then Inr None else
     and_then (call_find tags (tag_is ''name'')) (\<lambda>nameTag.
     and_then (call_find tags (tag_is ''description'')) (\<lambda>descTag.
     and_then (second_or_null nameTag) (\<lambda>nm.
     and_then (second_or_null descTag) (\<lambda>ds.
     and_then (get event ''pubkey'') (\<lambda>pk.
     and_then (get event ''created_at'') (\<lambda>ts.
     and_then (get event ''id'') (\<lambda>eid.
     Inr (Some \<lparr>url = u, name = nm, description = ds, pubkey = pk,
                created_at = ts, event_id = eid\<rparr>))))))))))))"

text \<open>
  \<open>parseBlossomServer\<close>: the \<open>try\<close> block with its \<open>catch\<close>, which logs and returns
  \<open>null\<close> (\<open>None\<close>).
\<close>

definition parseBlossomServer :: "jsval \<Rightarrow> exn + server option" where
  "parseBlossomServer event =
     (case parse_body event of Inl err \<Rightarrow> Inr None | Inr r \<Rightarrow> Inr r)"

section \<open>The relay list of a session\<close>

definition coreRelays :: "string list" where
  "coreRelays =
     [''wss://relay.damus.io'', ''wss://nos.lol'', ''wss://relay.nostr.band'',
      ''wss://relay.primal.net'']"

definition maxAdditional :: nat where
  "maxAdditional = 16"

text \<open>
  What the request to the relay directory comes to: \<open>fetch\<close> throws (network error,
  abort after three seconds), the status is not ok, \<open>response.json()\<close> throws, or a
  parsed body arrives.
\<close>

datatype directory = Unreachable | Status_not_ok | Json_error | Online jsval

text \<open>The first filter: \<open>typeof relay === 'string' && relay.startsWith('wss://')\<close>.\<close>

fun wss_strings :: "jsval list \<Rightarrow> string list" where
  "wss_strings [] = []"
| "wss_strings (JStr r # rs) =
     (if prefix ''wss://'' r then r # wss_strings rs else wss_strings rs)"
| "wss_strings (v # rs) = wss_strings rs"

text \<open>
  The body of \<open>if (response.ok)\<close>. Only an array has a callable \<open>filter\<close>.
  \<open>sort(() => Math.random() - 0.5)\<close> rearranges the array in place in an order the
  program does not control: the rearrangement is the parameter \<open>shuffle\<close>.
\<close>

definition select_relays :: "(string list \<Rightarrow> string list) \<Rightarrow> jsval \<Rightarrow> exn + string list" where
  "select_relays shuffle onlineRelays =
     (case onlineRelays of
        JArr xs \<Rightarrow>
          (let additionalRelays = filter (\<lambda>relay. relay \<notin> set coreRelays) (wss_strings xs);
               shuffled = shuffle additionalRelays;
               selectedRelays = take maxAdditional shuffled
           in Inr (coreRelays @ selectedRelays))
      | _ \<Rightarrow> Inl TypeError)"

text \<open>\<open>allRelays\<close> after the \<open>try\<close>/\<open>catch\<close> around the directory request.\<close>

definition allRelays_of :: "(string list \<Rightarrow> string list) \<Rightarrow> directory \<Rightarrow> string list" where
  "allRelays_of shuffle dir =
     (case dir of
        Online onlineRelays \<Rightarrow>
          (case select_relays shuffle onlineRelays of
             Inl err \<Rightarrow> coreRelays
           | Inr rs \<Rightarrow> rs)
      | _ \<Rightarrow> coreRelays)"

definition relaysSearched :: "(string list \<Rightarrow> string list) \<Rightarrow> directory \<Rightarrow> nat" where
  "relaysSearched shuffle dir = length (allRelays_of shuffle dir)"

section \<open>Batches of relay queries\<close>

definition concurrency :: nat where
  "concurrency = 6"

text \<open>\<open>xs.slice(i, j)\<close> for indices that are not negative.\<close>

definition slice :: "'a list \<Rightarrow> nat \<Rightarrow> nat \<Rightarrow> 'a list" where
  "slice xs i j = take (j - i) (drop i xs)"

text \<open>
  The batches taken by \<open>for (let i = 0; i < allRelays.length; i += concurrency)\<close>,
  from the loop index \<open>i\<close> on.
\<close>

function batches_from :: "nat \<Rightarrow> 'a list \<Rightarrow> 'a list list" where
  "batches_from i allRelays =
     (if i < length allRelays
      then slice allRelays i (i + concurrency) # batches_from (i + concurrency) allRelays
      else [])"
  by pat_completeness auto
termination
  by (relation "measure (\<lambda>(i, allRelays). length allRelays - i)") (auto simp: concurrency_def)

definition batches :: "'a list \<Rightarrow> 'a list list" where
  "batches allRelays = batches_from 0 allRelays"

text \<open>
  The loop with its \<open>await Promise.all(batchPromises)\<close>, as a transition system. At the
  loop head (\<open>awaiting\<close> false) the batch at \<open>loop_i\<close> is sliced off and every query of
  it is started; they are the pending ones. While the loop awaits, a pending query
  settles (each is wrapped in a \<open>catch\<close>, so it fulfils); once none is pending,
  \<open>Promise.all\<close> fulfils and the loop moves on by \<open>concurrency\<close>.
\<close>

record 'a orchestrator =
  loop_i :: nat
  pending :: "'a list"
  awaiting :: bool

definition orch_init :: "'a orchestrator" where
  "orch_init = \<lparr>loop_i = 0, pending = [], awaiting = False\<rparr>"

inductive orch_step :: "'a list \<Rightarrow> 'a orchestrator \<Rightarrow> 'a orchestrator \<Rightarrow> bool"
  for allRelays :: "'a list" where
  launch: "\<not> awaiting s \<Longrightarrow> loop_i s < length allRelays \<Longrightarrow>
     orch_step allRelays s
       (s\<lparr>pending := slice allRelays (loop_i s) (loop_i s + concurrency), awaiting := True\<rparr>)"
| settle: "awaiting s \<Longrightarrow> q \<in> set (pending s) \<Longrightarrow>
     orch_step allRelays s (s\<lparr>pending := remove1 q (pending s)\<rparr>)"
| resume: "awaiting s \<Longrightarrow> pending s = [] \<Longrightarrow>
     orch_step allRelays s (s\<lparr>loop_i := loop_i s + concurrency, awaiting := False\<rparr>)"

definition orch_reachable :: "'a list \<Rightarrow> 'a orchestrator \<Rightarrow> bool" where
  "orch_reachable allRelays s = (orch_step allRelays)\<^sup>*\<^sup>* orch_init s"

section \<open>Numbers and the conversions of the engine\<close>

text \<open>
  The merge applies \<open>>\<close> and \<open>-\<close> to \<open>created_at\<close>, which is whatever the event
  held, so both operators convert their operands. A number of the engine is \<open>NaN\<close>, an
  infinity or finite.
\<close>

datatype jsnum = NaN | NegInf | Fin rat | PosInf

text \<open>
  What the program takes from the engine and its library without containing it:
  \<open>StringToNumber\<close>, the number a string stands for (\<open>NaN\<close> when it is no numeric
  literal); \<open>ObjectToPrimitive\<close>, the conversion of an array or a plain object to a
  primitive with hint number, which gives a string or throws a TypeError; and
  \<open>ArraySort\<close>, \<open>Array.prototype.sort\<close> with a comparator, whose order is defined by
  the language only for a consistent comparator.
\<close>

record engine =
  StringToNumber :: "string \<Rightarrow> jsnum"
  ObjectToPrimitive :: "jsval \<Rightarrow> exn + string"
  ArraySort :: "(server \<Rightarrow> server \<Rightarrow> exn + jsnum) \<Rightarrow> server list \<Rightarrow> exn + server list"

text \<open>\<open>ToPrimitive\<close> with hint number: a primitive value is left as it is.\<close>

fun ToPrimitive :: "engine \<Rightarrow> jsval \<Rightarrow> exn + jsval" where
  "ToPrimitive e (JArr xs) = and_then (ObjectToPrimitive e (JArr xs)) (\<lambda>s. Inr (JStr s))"
| "ToPrimitive e (JObj kvs) = and_then (ObjectToPrimitive e (JObj kvs)) (\<lambda>s. Inr (JStr s))"
| "ToPrimitive e v = Inr v"

text \<open>
  \<open>ToNumber\<close> of a primitive value. Arrays and objects do not get here: \<open>ToPrimitive\<close>
  has made strings of them.
\<close>

fun ToNumber :: "engine \<Rightarrow> jsval \<Rightarrow> jsnum" where
  "ToNumber e JUndefined = NaN"
| "ToNumber e JNull = Fin 0"
| "ToNumber e (JBool b) = Fin (if b then 1 else 0)"
| "ToNumber e (JNum q) = Fin q"
| "ToNumber e (JInf b) = (if b then PosInf else NegInf)"
| "ToNumber e (JStr s) = StringToNumber e s"
| "ToNumber e (JArr xs) = NaN"
| "ToNumber e (JObj kvs) = NaN"

text \<open>
  \<open>x < y\<close> on numbers, false when the comparison is undefined because one of them is
  \<open>NaN\<close>; and on strings, by code units.
\<close>

fun number_less :: "jsnum \<Rightarrow> jsnum \<Rightarrow> bool" where
  "number_less NaN y = False"
| "number_less x NaN = False"
| "number_less x NegInf = False"
| "number_less NegInf y = True"
| "number_less PosInf y = False"
| "number_less x PosInf = True"
| "number_less (Fin a) (Fin b) = (a < b)"

fun string_less :: "string \<Rightarrow> string \<Rightarrow> bool" where
  "string_less [] [] = False"
| "string_less [] (y # ys) = True"
| "string_less (x # xs) [] = False"
| "string_less (x # xs) (y # ys) =
     (if (of_char x :: nat) < of_char y then True
      else if (of_char y :: nat) < of_char x then False
      else string_less xs ys)"

text \<open>
  \<open>a > b\<close>: both operands are made primitive; two strings are compared as strings,
  everything else as numbers.
\<close>

definition js_gt :: "engine \<Rightarrow> jsval \<Rightarrow> jsval \<Rightarrow> exn + bool" where
  "js_gt e a b =
     and_then (ToPrimitive e a) (\<lambda>pa.
     and_then (ToPrimitive e b) (\<lambda>pb.
     Inr (case (pa, pb) of
            (JStr sa, JStr sb) \<Rightarrow> string_less sb sa
          | _ \<Rightarrow> number_less (ToNumber e pb) (ToNumber e pa))))"

text \<open>
  \<open>x - y\<close> on numbers. The engine rounds the difference of two finite numbers to a
  double or an infinity, which keeps its sign; the sort reads nothing but the sign,
  and the exact difference stands for the rounded one.
\<close>

fun number_sub :: "jsnum \<Rightarrow> jsnum \<Rightarrow> jsnum" where
  "number_sub NaN y = NaN"
| "number_sub x NaN = NaN"
| "number_sub PosInf PosInf = NaN"
| "number_sub NegInf NegInf = NaN"
| "number_sub PosInf y = PosInf"
| "number_sub NegInf y = NegInf"
| "number_sub x PosInf = NegInf"
| "number_sub x NegInf = PosInf"
| "number_sub (Fin a) (Fin b) = Fin (a - b)"

definition js_sub :: "engine \<Rightarrow> jsval \<Rightarrow> jsval \<Rightarrow> exn + jsnum" where
  "js_sub e a b =
     and_then (ToPrimitive e a) (\<lambda>pa.
     and_then (ToPrimitive e b) (\<lambda>pb.
     Inr (number_sub (ToNumber e pa) (ToNumber e pb))))"

section \<open>Merge, deduplication and sort\<close>

text \<open>
  The JavaScript \<open>Map\<close> keeps its keys in the order of their first insertion, and
  \<open>set\<close> on a key that is there replaces the value in place: an association list
  with \<open>map_of\<close> for \<open>get\<close> and \<open>AList.update\<close> for \<open>set\<close>.
\<close>

type_synonym server_map = "(string \<times> server) list"

text \<open>
  The body of the inner loop: \<open>!existing || server.created_at > existing.created_at\<close>
  compares only when the url is there already.
\<close>

definition merge_step :: "engine \<Rightarrow> server_map \<Rightarrow> server \<Rightarrow> exn + server_map" where
  "merge_step e servers sv =
     (case map_of servers (url sv) of
        None \<Rightarrow> Inr (AList.update (url sv) sv servers)
      | Some existing \<Rightarrow>
          and_then (js_gt e (created_at sv) (created_at existing)) (\<lambda>newer.
          Inr (if newer then AList.update (url sv) sv servers else servers)))"

text \<open>The inner loop over one relay's records, and the outer loop over the relays.\<close>

fun merge_relay :: "engine \<Rightarrow> server_map \<Rightarrow> server list \<Rightarrow> exn + server_map" where
  "merge_relay e servers [] = Inr servers"
| "merge_relay e servers (sv # relayServers) =
     and_then (merge_step e servers sv) (\<lambda>servers'. merge_relay e servers' relayServers)"

fun merge_from :: "engine \<Rightarrow> server_map \<Rightarrow> server list list \<Rightarrow> exn + server_map" where
  "merge_from e servers [] = Inr servers"
| "merge_from e servers (relayServers # results) =
     and_then (merge_relay e servers relayServers) (\<lambda>servers'. merge_from e servers' results)"

definition merge_results :: "engine \<Rightarrow> server list list \<Rightarrow> exn + server_map" where
  "merge_results e results = merge_from e [] results"

text \<open>The comparator \<open>(a, b) => b.created_at - a.created_at\<close>.\<close>

definition comparefn :: "engine \<Rightarrow> server \<Rightarrow> server \<Rightarrow> exn + jsnum" where
  "comparefn e a b = js_sub e (created_at b) (created_at a)"

text \<open>
  \<open>Array.from(servers.values()).sort(...)\<close>, the values in the order of the map, and
  \<open>.map(s => s.url)\<close>.
\<close>

definition sorted_records :: "engine \<Rightarrow> server list list \<Rightarrow> exn + server list" where
  "sorted_records e results =
     and_then (merge_results e results) (\<lambda>servers.
     ArraySort e (comparefn e) (map snd servers))"

definition sortedServers :: "engine \<Rightarrow> server list list \<Rightarrow> exn + string list" where
  "sortedServers e results =
     and_then (sorted_records e results) (\<lambda>sorted. Inr (map url sorted))"

section \<open>The relay client\<close>

text \<open>
  The promise of \<open>queryRelay\<close> settles once; later calls of \<open>resolve\<close> and \<open>reject\<close> do
  nothing. It is only ever resolved with the array \<open>servers\<close> itself, so a fulfilled
  promise carries no copy of the list.
\<close>

datatype promise_state = Pending | Fulfilled | Rejected exn

record client =
  subId :: string
  servers :: "server list"
  timer :: bool
  promise :: promise_state

definition client_init :: "string \<Rightarrow> client" where
  "client_init sid = \<lparr>subId = sid, servers = [], timer = True, promise = Pending\<rparr>"

definition resolve :: "client \<Rightarrow> client" where
  "resolve c = (if promise c = Pending then c\<lparr>promise := Fulfilled\<rparr> else c)"

definition reject :: "exn \<Rightarrow> client \<Rightarrow> client" where
  "reject e c = (if promise c = Pending then c\<lparr>promise := Rejected e\<rparr> else c)"

definition clearTimeout :: "client \<Rightarrow> client" where
  "clearTimeout c = c\<lparr>timer := False\<rparr>"

text \<open>The test \<open>message[0] === kind && message[1] === subId\<close>.\<close>

definition is_for :: "jsval \<Rightarrow> string \<Rightarrow> string \<Rightarrow> exn + bool" where
  "is_for message kind sid =
     and_then (get message ''0'') (\<lambda>m0.
     if m0 \<noteq> JStr kind then Inr False else
     and_then (get message ''1'') (\<lambda>m1. Inr (m1 = JStr sid)))"

text \<open>
  The \<open>try\<close> block of the message handler. The frame is given by what \<open>JSON.parse\<close>
  makes of it: \<open>None\<close> when it throws a SyntaxError.
\<close>

definition message_body :: "client \<Rightarrow> jsval option \<Rightarrow> exn + client" where
  "message_body c frame =
     (case frame of
        None \<Rightarrow> Inl SyntaxError
      | Some message \<Rightarrow>
          and_then (is_for message ''EVENT'' (subId c)) (\<lambda>is_event.
          and_then
            (if is_event
             then and_then (get message ''2'') (\<lambda>nostrEvent.
                  and_then (parseBlossomServer nostrEvent) (\<lambda>sv.
                  Inr (case sv of None \<Rightarrow> c | Some s \<Rightarrow> c\<lparr>servers := servers c @ [s]\<rparr>)))
             else Inr c) (\<lambda>c1.
          and_then (is_for message ''EOSE'' (subId c)) (\<lambda>is_eose.
          Inr (if is_eose then resolve (clearTimeout c1) else c1)))))"

text \<open>The message handler: the \<open>catch\<close> logs and goes on with the state as it was.\<close>

definition on_message :: "client \<Rightarrow> jsval option \<Rightarrow> exn + client" where
  "on_message c frame =
     (case message_body c frame of Inl err \<Rightarrow> Inr c | Inr c' \<Rightarrow> Inr c')"

datatype ws_event = Open | Message "jsval option" | Ws_error string | Close | Timer_fired

text \<open>
  One callback of \<open>queryRelay\<close>. The timer callback runs only while the timer is set.
\<close>

definition on_event :: "client \<Rightarrow> ws_event \<Rightarrow> exn + client" where
  "on_event c ev =
     (case ev of
        Open \<Rightarrow> Inr c
      | Message frame \<Rightarrow> on_message c frame
      | Ws_error msg \<Rightarrow> Inr (reject (Error (''WebSocket error: '' @ msg)) (clearTimeout c))
      | Close \<Rightarrow> Inr (resolve (clearTimeout c))
      | Timer_fired \<Rightarrow> Inr (if timer c then resolve (clearTimeout c) else c))"

text \<open>The callbacks of one connection, in the order they run.\<close>

fun run_events :: "client \<Rightarrow> ws_event list \<Rightarrow> exn + client" where
  "run_events c [] = Inr c"
| "run_events c (ev # evs) = and_then (on_event c ev) (\<lambda>c'. run_events c' evs)"

text \<open>
  What the orchestrator's \<open>queryRelay(relay, timeout).catch(err => ... return [])\<close>
  delivers once the promise has settled: the array \<open>servers\<close>, or the empty list after a
  rejection.
\<close>

definition batch_result :: "client \<Rightarrow> server list option" where
  "batch_result c =
     (case promise c of
        Pending \<Rightarrow> None
      | Fulfilled \<Rightarrow> Some (servers c)
      | Rejected err \<Rightarrow> Some [])"

section \<open>Notions used to state the properties\<close>

subsection \<open>Events and their tags\<close>

text \<open>
  The value of a property where reading it does not throw, \<open>undefined\<close> otherwise;
  the tag list of an event (empty when \<open>tags\<close> is not an array); a tag whose first
  element is the marker \<open>k\<close>; the first such tag of an event; and the second element
  of an optional tag, \<open>null\<close> when there is no tag.
\<close>

definition property :: "jsval \<Rightarrow> string \<Rightarrow> jsval" where
  "property v k = (case get v k of Inl e \<Rightarrow> JUndefined | Inr x \<Rightarrow> x)"

definition tags_of :: "jsval \<Rightarrow> jsval list" where
  "tags_of event = (case property event ''tags'' of JArr ts \<Rightarrow> ts | _ \<Rightarrow> [])"

definition has_key :: "string \<Rightarrow> jsval \<Rightarrow> bool" where
  "has_key k tag = (get tag ''0'' = Inr (JStr k))"

definition first_tag :: "string \<Rightarrow> jsval \<Rightarrow> jsval option" where
  "first_tag k event = find (has_key k) (tags_of event)"

definition second_of :: "jsval option \<Rightarrow> jsval" where
  "second_of tag = (case tag of None \<Rightarrow> JNull | Some t \<Rightarrow> property t ''1'')"

subsection \<open>Records with numbers for timestamps\<close>

text \<open>
  The records \<open>rs\<close> are \<open>numeric\<close> when every \<open>created_at\<close> is a finite number;
  \<open>seconds\<close> is that number.
\<close>

definition numeric :: "server list \<Rightarrow> bool" where
  "numeric rs = (\<forall>r\<in>set rs. \<exists>q. created_at r = JNum q)"

definition seconds :: "server \<Rightarrow> rat" where
  "seconds r = (case created_at r of JNum q \<Rightarrow> q | _ \<Rightarrow> 0)"

text \<open>
  Among the records \<open>rs\<close> in the order they are processed: \<open>r\<close> is \<open>newest\<close> when no
  record with its url has a greater timestamp; \<open>is_kept\<close> when, in addition, it is the
  first record with its url and its timestamp.
\<close>

definition newest :: "server list \<Rightarrow> server \<Rightarrow> bool" where
  "newest rs r = (r \<in> set rs \<and> (\<forall>y\<in>set rs. url y = url r \<longrightarrow> seconds y \<le> seconds r))"

definition same_key :: "server \<Rightarrow> server \<Rightarrow> bool" where
  "same_key r y = (url y = url r \<and> seconds y = seconds r)"

definition is_kept :: "server list \<Rightarrow> server \<Rightarrow> bool" where
  "is_kept rs r = (newest rs r \<and> find (same_key r) rs = Some r)"



text \<open>The sort key of a record paired with its url.\<close>

definition stamp :: "server \<Rightarrow> rat \<times> string" where
  "stamp r = (- seconds r, url r)"

text \<open>
  On numeric records the conversions do nothing, and the merge step and the sorted
  output are these functions (lemmas \<open>merge_step_numeric\<close> and \<open>sorted_records_numeric\<close>).
\<close>

definition num_step :: "server_map \<Rightarrow> server \<Rightarrow> server_map" where
  "num_step m sv =
     (case map_of m (url sv) of
        None \<Rightarrow> AList.update (url sv) sv m
      | Some existing \<Rightarrow>
          if seconds sv > seconds existing then AList.update (url sv) sv m else m)"

definition num_merge :: "server list \<Rightarrow> server_map" where
  "num_merge rs = foldl num_step [] rs"

definition num_sorted :: "server list \<Rightarrow> server list" where
  "num_sorted rs = sort_key (\<lambda>s. - seconds s) (map snd (num_merge rs))"

subsection \<open>What the language says of the sort\<close>

text \<open>
  \<open>Array.prototype.sort\<close> is stable, and for a consistent comparator its result is
  sorted by the comparator. Used here in this form: when, on the elements of the
  array, the comparator returns a finite number with the sign of \<open>f x - f y\<close> for a
  key \<open>f\<close>, the result is the array sorted by ascending \<open>f\<close>, elements with equal keys
  in their old order (\<open>sort_key\<close> is that sort).
\<close>

definition sort_contract ::
  "((server \<Rightarrow> server \<Rightarrow> exn + jsnum) \<Rightarrow> server list \<Rightarrow> exn + server list) \<Rightarrow> bool" where
  "sort_contract srt =
     (\<forall>cmp xs (f :: server \<Rightarrow> rat).
        (\<forall>x\<in>set xs. \<forall>y\<in>set xs. \<exists>v. cmp x y = Inr (Fin v) \<and> sgn v = sgn (f x - f y))
        \<longrightarrow> srt cmp xs = Inr (sort_key f xs))"

text \<open>
  A sort that meets it: insertion from the right, where the comparator's \<open>NaN\<close> counts
  as zero, as \<open>SortCompare\<close> has it.
\<close>

fun not_after :: "jsnum \<Rightarrow> bool" where
  "not_after NaN = True"
| "not_after NegInf = True"
| "not_after (Fin v) = (v \<le> 0)"
| "not_after PosInf = False"

fun insert_sorted :: "('a \<Rightarrow> 'a \<Rightarrow> exn + jsnum) \<Rightarrow> 'a \<Rightarrow> 'a list \<Rightarrow> exn + 'a list" where
  "insert_sorted cmp x [] = Inr [x]"
| "insert_sorted cmp x (y # ys) =
     and_then (cmp x y) (\<lambda>v.
     if not_after v then Inr (x # y # ys)
     else and_then (insert_sorted cmp x ys) (\<lambda>zs. Inr (y # zs)))"

fun insertion_sort :: "('a \<Rightarrow> 'a \<Rightarrow> exn + jsnum) \<Rightarrow> 'a list \<Rightarrow> exn + 'a list" where
  "insertion_sort cmp [] = Inr []"
| "insertion_sort cmp (x # xs) = and_then (insertion_sort cmp xs) (insert_sorted cmp x)"

subsection \<open>Concrete inputs\<close>

text \<open>
  An engine for the runs below. Its sort is the insertion sort; it reads a string of
  decimal digits as the number written, which is all those runs ask of
  \<open>StringToNumber\<close>, and they hold no array and no object for a timestamp.
\<close>

definition digits_number :: "string \<Rightarrow> jsnum" where
  "digits_number s =
     (if s \<noteq> [] \<and> list_all is_digit s
      then Fin (of_nat (foldl (\<lambda>n c. 10 * n + (of_char c - 48)) 0 s))
      else NaN)"

definition run_engine :: engine where
  "run_engine =
     \<lparr>StringToNumber = digits_number,
      ObjectToPrimitive = (\<lambda>v. Inl TypeError),
      ArraySort = insertion_sort\<rparr>"

text \<open>An announcement of \<open>u\<close> with timestamp \<open>t\<close> by event \<open>e\<close>, without metadata.\<close>

definition announce :: "string \<Rightarrow> jsval \<Rightarrow> string \<Rightarrow> server" where
  "announce u t e =
     \<lparr>url = u, name = JNull, description = JNull, pubkey = JStr ''pk'',
      created_at = t, event_id = JStr e\<rparr>"

text \<open>
  The scenario of three relays: A announces \<open>url1\<close> at 100 and \<open>url2\<close> at 50, B
  announces \<open>url1\<close> at 200 and \<open>url3\<close> at 75, C times out with nothing.
\<close>

definition three_relays :: "server list list" where
  "three_relays =
     [[announce ''https://url1'' (JNum 100) ''a1'', announce ''https://url2'' (JNum 50) ''a2''],
      [announce ''https://url1'' (JNum 200) ''b1'', announce ''https://url3'' (JNum 75) ''b2''],
      []]"

text \<open>Two relays announcing different servers with the same timestamp.\<close>

definition tie_a :: server where
  "tie_a = announce ''https://a.example'' (JNum 1) ''ea''"

definition tie_b :: server where
  "tie_b = announce ''https://b.example'' (JNum 1) ''eb''"

text \<open>
  One relay whose events carry strings and numbers for \<open>created_at\<close>: three
  announcements of \<open>u1\<close> with \<open>"10"\<close>, \<open>9.5\<close> and \<open>"9"\<close>, and one of \<open>u2\<close> with \<open>9.2\<close>.
\<close>

definition u1_s10 :: server where
  "u1_s10 = announce ''https://u1.example'' (JStr ''10'') ''e1''"

definition u1_n95 :: server where
  "u1_n95 = announce ''https://u1.example'' (JNum (19 / 2)) ''e2''"

definition u1_s9 :: server where
  "u1_s9 = announce ''https://u1.example'' (JStr ''9'') ''e3''"

definition u2_n92 :: server where
  "u2_n92 = announce ''https://u2.example'' (JNum (46 / 5)) ''e4''"

definition mixed_relay :: "server list list" where
  "mixed_relay = [[u1_s10, u1_n95, u1_s9, u2_n92]]"

text \<open>Events: a well-formed announcement, and one whose tag list ends in \<open>null\<close>.\<close>

definition d_tag :: jsval where
  "d_tag = JArr [JStr ''d'', JStr ''https://x.example'']"

definition good_event :: jsval where
  "good_event =
     JObj [(''id'', JStr ''e1''), (''pubkey'', JStr ''pk''), (''created_at'', JNum 100),
           (''tags'', JArr [d_tag, JArr [JStr ''name'', JStr ''X'']])]"

definition null_tag_event :: jsval where
  "null_tag_event =
     JObj [(''id'', JStr ''e1''), (''pubkey'', JStr ''pk''), (''created_at'', JNum 100),
           (''tags'', JArr [d_tag, JNull])]"

definition good_record :: "server" where
  "good_record =
     \<lparr>url = ''https://x.example'', name = JStr ''X'', description = JNull,
      pubkey = JStr ''pk'', created_at = JNum 100, event_id = JStr ''e1''\<rparr>"

text \<open>
  A connection that delivers one announcement and then fails, and the state it ends in.
\<close>

definition failing_connection :: "ws_event list" where
  "failing_connection =
     [Open, Message (Some (JArr [JStr ''EVENT'', JStr ''blossom-1'', good_event])),
      Ws_error ''reset'']"

definition failed_client :: client where
  "failed_client =
     \<lparr>subId = ''blossom-1'', servers = [good_record], timer = False,
      promise = Rejected (Error ''WebSocket error: reset'')\<rparr>"

definition pending_client :: client where
  "pending_client =
     \<lparr>subId = ''blossom-1'', servers = [good_record], timer = True, promise = Pending\<rparr>"

text \<open>Thirteen relays, and the orchestrator right after it started the first batch.\<close>

definition thirteen :: "nat list" where
  "thirteen = [1, 2, 3, 4, 5, 6, 7, 8, 9, 10, 11, 12, 13]"

definition first_batch_started :: "nat orchestrator" where
  "first_batch_started = \<lparr>loop_i = 0, pending = [1, 2, 3, 4, 5, 6], awaiting = True\<rparr>"

text \<open>A directory answer with one usable relay among unusable entries.\<close>

definition directory_answer :: directory where
  "directory_answer =
     Online (JArr [JStr ''wss://relay.example'', JStr ''ws://plain.example'', JNum 7,
                   JStr ''wss://nos.lol''])"

section \<open>The event parser\<close>

lemma index_of_key_simps [simp]:
  "index_of_key ''0'' = Some 0" "index_of_key ''1'' = Some 1" "index_of_key ''2'' = Some 2"
  "index_of_key ''tags'' = None" "index_of_key ''pubkey'' = None"
  "index_of_key ''created_at'' = None" "index_of_key ''id'' = None"
  by (simp_all add: index_of_key_def is_digit_def)

lemma and_then_simps [simp]:
  "and_then (Inl e) f = Inl e" "and_then (Inr v) f = f v"
  by (simp_all add: and_then_def)

lemma and_then_eq_Inr:
  "and_then r f = Inr y \<longleftrightarrow> (\<exists>v. r = Inr v \<and> f v = Inr y)"
  by (cases r) simp_all

lemma get_not_nullish: "t \<noteq> JNull \<Longrightarrow> t \<noteq> JUndefined \<Longrightarrow> \<exists>v. get t k = Inr v"
  by (cases t) (simp_all split: option.splits)

lemma get_Inr_property: "get v k = Inr x \<Longrightarrow> property v k = x"
  by (simp add: property_def)

lemma get_property: "t \<noteq> JNull \<Longrightarrow> t \<noteq> JUndefined \<Longrightarrow> get t k = Inr (property t k)"
  using get_not_nullish [of t k] by (auto simp: property_def)

lemma has_key_truthy: "has_key k t \<Longrightarrow> truthy t"
  by (cases t) (auto simp: has_key_def split: if_splits)

lemma has_key_not_nullish: "has_key k t \<Longrightarrow> t \<noteq> JNull \<and> t \<noteq> JUndefined"
  by (cases t) (auto simp: has_key_def)

lemma tag_is_cases:
  "tag_is k t = Inr b \<longleftrightarrow> (\<exists>v. get t ''0'' = Inr v) \<and> b = has_key k t"
  by (cases "get t ''0''") (auto simp: tag_is_def has_key_def)

lemma array_find_Inr:
  "array_find (tag_is k) ts = Inr v \<Longrightarrow>
     find (has_key k) ts = (if truthy v then Some v else None) \<and> (\<not> truthy v \<longrightarrow> v = JUndefined)"
proof (induction ts)
  case Nil
  then show ?case by simp
next
  case (Cons t ts)
  show ?case
  proof (cases "tag_is k t")
    case (Inl e)
    with Cons.prems show ?thesis by simp
  next
    case (Inr b)
    then have b: "b = has_key k t" by (simp add: tag_is_cases)
    show ?thesis
    proof (cases b)
      case True
      with Inr Cons.prems b show ?thesis by (auto simp: has_key_truthy)
    next
      case False
      with Inr Cons.prems b Cons.IH show ?thesis by simp
    qed
  qed
qed

lemma array_find_total:
  "\<forall>t\<in>set ts. t \<noteq> JNull \<and> t \<noteq> JUndefined \<Longrightarrow>
     array_find (tag_is k) ts = Inr (case find (has_key k) ts of None \<Rightarrow> JUndefined | Some t \<Rightarrow> t)"
proof (induction ts)
  case Nil
  then show ?case by simp
next
  case (Cons t ts)
  then obtain v where "get t ''0'' = Inr v"
    using get_not_nullish [of t "''0''"] by auto
  then have "tag_is k t = Inr (has_key k t)"
    by (simp add: tag_is_cases)
  with Cons show ?case by simp
qed

lemma second_or_null_find:
  "\<forall>t\<in>set ts. t \<noteq> JNull \<and> t \<noteq> JUndefined \<Longrightarrow>
   second_or_null (case find (has_key k) ts of None \<Rightarrow> JUndefined | Some t \<Rightarrow> t)
     = Inr (second_of (find (has_key k) ts))"
proof (cases "find (has_key k) ts")
  case None
  then show ?thesis by (simp add: second_or_null_def second_of_def)
next
  case (Some t)
  then have "has_key k t" by (auto simp: find_Some_iff)
  then show ?thesis using Some get_property [of t "''1''"] has_key_truthy [of k t] has_key_not_nullish [of k t]
    by (simp add: second_or_null_def second_of_def)
qed

lemma tags_array_event:
  assumes "get event ''tags'' = Inr (JArr ts)"
  shows "tags_of event = ts" and "event \<noteq> JNull" and "event \<noteq> JUndefined"
  using assms by (auto simp: tags_of_def property_def)

lemma first_tag_tags:
  "first_tag k event = Some t \<Longrightarrow> get event ''tags'' = Inr (JArr (tags_of event))"
  by (auto simp: first_tag_def tags_of_def property_def split: sum.splits jsval.splits)

text \<open>
  Claim C5, as the code has it. Take an event whose tag list has no \<open>null\<close> or
  \<open>undefined\<close> entry (in particular one whose tags are all arrays), and whose first
  \<open>d\<close> tag has a second element that is a string starting with
  \<open>https://\<close>. Then \<open>parseBlossomServer\<close> returns a record: its \<open>url\<close> is that
  string, \<open>name\<close> and \<open>description\<close> are the second element of the first \<open>name\<close> and
  \<open>description\<close> tag (\<open>null\<close> when there is no such tag), and \<open>pubkey\<close>,
  \<open>created_at\<close> and \<open>event_id\<close> are the event's \<open>pubkey\<close>, \<open>created_at\<close> and \<open>id\<close>
  as they are.
\<close>

theorem parse_valid_event:
  assumes no_null: "\<forall>t\<in>set (tags_of event). t \<noteq> JNull \<and> t \<noteq> JUndefined"
    and d: "first_tag ''d'' event = Some dTag"
    and u: "get dTag ''1'' = Inr (JStr u)"
    and secure: "prefix ''https://'' u"
  shows "parseBlossomServer event =
     Inr (Some \<lparr>url = u,
                name = second_of (first_tag ''name'' event),
                description = second_of (first_tag ''description'' event),
                pubkey = property event ''pubkey'',
                created_at = property event ''created_at'',
                event_id = property event ''id''\<rparr>)"
proof -
  let ?ts = "tags_of event"
  have tags: "get event ''tags'' = Inr (JArr ?ts)"
    using d by (rule first_tag_tags)
  note ev = tags_array_event [OF tags]
  have fd: "find (has_key ''d'') ?ts = Some dTag"
    using d by (simp add: first_tag_def)
  then have "has_key ''d'' dTag" by (auto simp: find_Some_iff)
  then have td: "truthy dTag" by (rule has_key_truthy)
  have une: "u \<noteq> []" using secure by auto
  have g: "get event k = Inr (property event k)" for k
    using ev(2,3) by (rule get_property)
  have "parse_body event =
     Inr (Some \<lparr>url = u,
                name = second_of (first_tag ''name'' event),
                description = second_of (first_tag ''description'' event),
                pubkey = property event ''pubkey'',
                created_at = property event ''created_at'',
                event_id = property event ''id''\<rparr>)"
    unfolding parse_body_def tags
    by (simp add: g array_find_total [OF no_null] fd td u une secure
        second_or_null_find [OF no_null] first_tag_def)
  then show ?thesis by (simp add: parseBlossomServer_def)
qed

lemma parse_Some_imp:
  assumes "parseBlossomServer event = Inr (Some r)"
  shows "\<exists>dTag u. first_tag ''d'' event = Some dTag \<and> get dTag ''1'' = Inr (JStr u)
            \<and> u \<noteq> [] \<and> prefix ''https://'' u \<and> url r = u"
proof -
  from assms have pb: "parse_body event = Inr (Some r)"
    by (simp add: parseBlossomServer_def split: sum.splits)
  then obtain tags where tags: "get event ''tags'' = Inr tags"
    unfolding parse_body_def by (auto simp: and_then_eq_Inr)
  from pb tags obtain dTag where dTag: "call_find tags (tag_is ''d'') = Inr dTag"
    unfolding parse_body_def by (auto simp: and_then_eq_Inr)
  then obtain ts where ts: "tags = JArr ts" by (cases tags) simp_all
  from pb tags dTag have td: "truthy dTag"
    unfolding parse_body_def by (auto split: if_splits)
  from pb tags dTag td obtain serverUrl where su: "get dTag ''1'' = Inr serverUrl"
    unfolding parse_body_def by (auto simp: and_then_eq_Inr)
  from pb tags dTag td su have tsu: "truthy serverUrl"
    unfolding parse_body_def by (auto split: if_splits)
  from pb tags dTag td su tsu obtain u b where sw: "call_startsWith serverUrl ''https://'' = Inr (u, b)"
    unfolding parse_body_def by (auto simp: and_then_eq_Inr)
  then have u: "serverUrl = JStr u" "b = prefix ''https://'' u"
    by (cases serverUrl; auto)+
  from pb tags dTag td su tsu sw have b: "b" and ur: "url r = u"
    unfolding parse_body_def by (auto simp: and_then_eq_Inr split: if_splits)
  from dTag ts td have "find (has_key ''d'') ts = Some dTag"
    using array_find_Inr [of "''d''" ts dTag] by simp
  then have "first_tag ''d'' event = Some dTag"
    using tags ts by (simp add: first_tag_def tags_of_def property_def)
  with su u b tsu ur show ?thesis by auto
qed

text \<open>
  Claim C6. An event without a \<open>d\<close> tag (also one whose \<open>tags\<close> is no array), an event
  whose first \<open>d\<close> tag has a missing or empty second element, and an event whose first
  \<open>d\<close> tag has a second element that is not a string starting with \<open>https://\<close>:
  for each of them \<open>parseBlossomServer\<close> returns \<open>null\<close>.
\<close>

theorem parse_rejects:
  assumes "first_tag ''d'' event = None
     \<or> (\<exists>dTag. first_tag ''d'' event = Some dTag
           \<and> (get dTag ''1'' = Inr JUndefined \<or> get dTag ''1'' = Inr (JStr '''')))
     \<or> (\<exists>dTag. first_tag ''d'' event = Some dTag
           \<and> (\<forall>u. get dTag ''1'' = Inr (JStr u) \<longrightarrow> \<not> prefix ''https://'' u))"
  shows "parseBlossomServer event = Inr None"
proof -
  obtain r where r: "parseBlossomServer event = Inr r"
    by (cases "parse_body event") (auto simp: parseBlossomServer_def)
  show ?thesis
  proof (cases r)
    case None
    with r show ?thesis by simp
  next
    case (Some s)
    with r parse_Some_imp [of event s] assms show ?thesis by auto
  qed
qed

section \<open>The merge\<close>

lemma find_snoc:
  "find P (xs @ [x]) = (case find P xs of None \<Rightarrow> (if P x then Some x else None) | Some y \<Rightarrow> Some y)"
  by (induction xs) simp_all

lemma find_SomeD: "find P xs = Some y \<Longrightarrow> P y \<and> y \<in> set xs"
  by (induction xs) (auto split: if_splits)

lemma find_same_key_snoc:
  "find (same_key r) (rs @ [x]) = Some r \<longleftrightarrow>
     find (same_key r) rs = Some r \<or> (r = x \<and> (\<forall>y\<in>set rs. \<not> same_key x y))"
  by (auto simp: find_snoc find_None_iff split: option.splits dest: find_SomeD) (auto simp: same_key_def)

lemma is_kept_in: "is_kept rs r \<Longrightarrow> r \<in> set rs"
  by (simp add: is_kept_def newest_def)

lemma is_kept_snoc:
  "is_kept (rs @ [x]) r \<longleftrightarrow>
     (url r \<noteq> url x \<and> is_kept rs r)
   \<or> (url r = url x \<and> is_kept rs r \<and> seconds x \<le> seconds r)
   \<or> (r = x \<and> (\<forall>y\<in>set rs. url y = url x \<longrightarrow> seconds y < seconds x))"
  unfolding is_kept_def find_same_key_snoc newest_def
  by (auto simp: same_key_def dest: find_SomeD)


lemma is_kept_snoc_other: "url r \<noteq> url x \<Longrightarrow> is_kept (rs @ [x]) r = is_kept rs r"
  by (auto simp: is_kept_snoc)

lemma is_kept_snoc_same:
  "url r = url x \<Longrightarrow> is_kept (rs @ [x]) r =
     ((is_kept rs r \<and> seconds x \<le> seconds r)
      \<or> (r = x \<and> (\<forall>y\<in>set rs. url y = url x \<longrightarrow> seconds y < seconds x)))"
  by (auto simp: is_kept_snoc)

lemma map_of_update: "map_of (AList.update k v m) = (map_of m)(k \<mapsto> v)"
  by (rule update_conv')

lemma num_step_inv:
  assumes d: "distinct (map fst m)"
    and n: "dom (map_of m) = url ` set rs"
    and k: "\<forall>u r. (map_of m u = Some r) = (url r = u \<and> is_kept rs r)"
  shows "distinct (map fst (num_step m x))"
    and "dom (map_of (num_step m x)) = url ` set (rs @ [x])"
    and "\<forall>u r. (map_of (num_step m x) u = Some r) = (url r = u \<and> is_kept (rs @ [x]) r)"
proof -
  show "distinct (map fst (num_step m x))"
    using d by (simp add: num_step_def distinct_update split: option.splits)
  show "dom (map_of (num_step m x)) = url ` set (rs @ [x])"
  proof (cases "map_of m (url x)")
    case None
    have "num_step m x = AList.update (url x) x m"
      by (simp add: num_step_def None)
    then show ?thesis using n by (simp add: map_of_update)
  next
    case (Some e)
    then have "url x \<in> dom (map_of m)" by blast
    then have in_dom: "url x \<in> url ` set rs" using n by simp
    have "dom (map_of (num_step m x)) = insert (url x) (url ` set rs)"
      using in_dom n
      by (cases "seconds e < seconds x")
         (simp_all add: num_step_def Some map_of_update insert_absorb)
    then show ?thesis by simp
  qed
  show "\<forall>u r. (map_of (num_step m x) u = Some r) = (url r = u \<and> is_kept (rs @ [x]) r)"
  proof (intro allI)
    fix u r
    show "(map_of (num_step m x) u = Some r) = (url r = u \<and> is_kept (rs @ [x]) r)"
    proof (cases "u = url x")
      case False
      have "map_of (num_step m x) u = map_of m u"
        using False by (simp add: num_step_def map_of_update split: option.splits)
      moreover have "url r = u \<Longrightarrow> is_kept (rs @ [x]) r = is_kept rs r"
        using False by (simp add: is_kept_snoc_other)
      ultimately show ?thesis using k by auto
    next
      case True
      show ?thesis
      proof (cases "map_of m (url x)")
        case None
        then have "url x \<notin> dom (map_of m)" by (simp add: domIff)
        then have "url x \<notin> url ` set rs" using n by simp
        then have no: "\<forall>y\<in>set rs. url y \<noteq> url x" by (metis imageI)
        then have nk: "url r = url x \<Longrightarrow> \<not> is_kept rs r"
          using is_kept_in [of rs r] by blast
        have "map_of (num_step m x) u = Some x"
          using True None by (simp add: num_step_def map_of_update)
        moreover have "url r = url x \<Longrightarrow> is_kept (rs @ [x]) r = (r = x)"
          using no nk by (simp add: is_kept_snoc_same)
        ultimately show ?thesis using True by auto
      next
        case (Some e)
        then have e: "url e = url x" "is_kept rs e" using k by auto
        then have le: "\<forall>y\<in>set rs. url y = url x \<longrightarrow> seconds y \<le> seconds e"
          by (auto simp: is_kept_def newest_def)
        have uniq: "url r = url x \<Longrightarrow> is_kept rs r = (r = e)"
          using k Some e by (metis option.inject)
        have ein: "e \<in> set rs" using e(2) by (rule is_kept_in)
        show ?thesis
        proof (cases "seconds x > seconds e")
          case gt: True
          then have lt: "\<forall>y\<in>set rs. url y = url x \<longrightarrow> seconds y < seconds x"
            using le by fastforce
          have "map_of (num_step m x) u = Some x"
            using True Some gt by (simp add: num_step_def map_of_update)
          moreover have "url r = url x \<Longrightarrow> is_kept (rs @ [x]) r = (r = x)"
            using lt uniq gt by (auto simp: is_kept_snoc_same)
          ultimately show ?thesis using True by auto
        next
          case ngt: False
          then have nlt: "\<not> (\<forall>y\<in>set rs. url y = url x \<longrightarrow> seconds y < seconds x)"
            using ein e(1) by auto
          have "map_of (num_step m x) u = Some e"
            using True Some ngt by (simp add: num_step_def)
          moreover have "url r = url x \<Longrightarrow> is_kept (rs @ [x]) r = (r = e)"
            using nlt uniq ngt by (auto simp: is_kept_snoc_same)
          ultimately show ?thesis using True e(1) by auto
        qed
      qed
    qed
  qed
qed

lemma foldl_num_step_inv:
  "distinct (map fst (foldl num_step [] rs))
   \<and> dom (map_of (foldl num_step [] rs)) = url ` set rs
   \<and> (\<forall>u r. (map_of (foldl num_step [] rs) u = Some r) = (url r = u \<and> is_kept rs r))"
proof (induction rs rule: rev_induct)
  case Nil
  show ?case by (auto dest: is_kept_in)
next
  case (snoc x rs)
  then show ?case
    using num_step_inv [of "foldl num_step [] rs" rs x] by simp
qed

lemma merged_entry:
  "(u, r) \<in> set (num_merge (concat results)) \<longleftrightarrow> url r = u \<and> is_kept (concat results) r"
proof -
  let ?m = "foldl num_step [] (concat results)"
  have d: "distinct (map fst ?m)"
    and k: "(map_of ?m u = Some r) = (url r = u \<and> is_kept (concat results) r)"
    using foldl_num_step_inv [of "concat results"] by blast+
  have "((u, r) \<in> set ?m) = (map_of ?m u = Some r)"
    using d by simp
  with k show ?thesis by (simp add: num_merge_def)
qed

lemma merged_values:
  "r \<in> set (map snd (num_merge (concat results))) \<longleftrightarrow> is_kept (concat results) r"
proof
  assume "r \<in> set (map snd (num_merge (concat results)))"
  then obtain u where "(u, r) \<in> set (num_merge (concat results))" by auto
  then show "is_kept (concat results) r" by (simp add: merged_entry)
next
  assume "is_kept (concat results) r"
  then have "(url r, r) \<in> set (num_merge (concat results))" by (simp add: merged_entry)
  then show "r \<in> set (map snd (num_merge (concat results)))" by force
qed

lemma merged_urls: "map url (map snd (num_merge (concat results))) = map fst (num_merge (concat results))"
proof -
  have "url (snd p) = fst p" if "p \<in> set (num_merge (concat results))" for p
    using that merged_entry [of "fst p" "snd p" results] by simp
  then show ?thesis by simp
qed

lemma distinct_merged_urls: "distinct (map url (map snd (num_merge (concat results))))"
proof -
  have "distinct (map fst (num_merge (concat results)))"
    using foldl_num_step_inv [of "concat results"] by (simp add: num_merge_def)
  then show ?thesis by (simp only: merged_urls)
qed

lemma distinct_map_sort_key:
  "distinct (map g (sort_key f xs)) = distinct (map g xs)"
proof -
  have "mset (map g (sort_key f xs)) = mset (map g xs)" by simp
  then show ?thesis by (rule mset_eq_imp_distinct_iff)
qed

lemma num_sorted_set: "r \<in> set (num_sorted (concat results)) \<longleftrightarrow> is_kept (concat results) r"
  using merged_values [of r results] by (simp add: num_sorted_def)

lemma num_sorted_distinct: "distinct (map url (num_sorted (concat results)))"
  using distinct_merged_urls [of results]
  by (simp only: num_sorted_def distinct_map_sort_key)


lemma num_step_noop:
  "map_of m (url r) = Some e \<Longrightarrow> seconds r \<le> seconds e \<Longrightarrow> num_step m r = m"
  by (simp add: num_step_def)

lemma foldl_num_step_noop:
  "\<forall>r\<in>set rs. \<exists>e. map_of m (url r) = Some e \<and> seconds r \<le> seconds e
     \<Longrightarrow> foldl num_step m rs = m"
proof (induction rs)
  case Nil
  show ?case by simp
next
  case (Cons r rs)
  then obtain e where "map_of m (url r) = Some e" "seconds r \<le> seconds e"
    by auto
  then have "num_step m r = m" by (rule num_step_noop)
  with Cons show ?case by simp
qed

lemma merged_covers:
  assumes "r \<in> set rs"
  shows "\<exists>e. map_of (foldl num_step [] rs) (url r) = Some e \<and> seconds r \<le> seconds e"
proof -
  let ?m = "foldl num_step [] rs"
  have dm: "dom (map_of ?m) = url ` set rs"
    and k: "\<And>u e. (map_of ?m u = Some e) = (url e = u \<and> is_kept rs e)"
    using foldl_num_step_inv [of rs] by blast+
  have "url r \<in> dom (map_of ?m)" using assms dm by simp
  then obtain e where e: "map_of ?m (url r) = Some e" by blast
  then have "url e = url r" "is_kept rs e" using k by auto
  then have "seconds r \<le> seconds e"
    using assms by (auto simp: is_kept_def newest_def)
  with e show ?thesis by blast
qed

lemma num_merge_twice: "num_merge (concat (results @ results)) = num_merge (concat results)"
proof -
  let ?rs = "concat results"
  have "foldl num_step (foldl num_step [] ?rs) ?rs = foldl num_step [] ?rs"
    by (rule foldl_num_step_noop) (simp add: merged_covers)
  then show ?thesis by (simp add: num_merge_def)
qed

lemma newest_cong: "set rs' = set rs \<Longrightarrow> newest rs' = newest rs"
  by (auto simp: newest_def fun_eq_iff)

lemma newest_has_kept:
  assumes "newest rs r"
  shows "\<exists>r'. is_kept rs r' \<and> url r' = url r \<and> seconds r' = seconds r"
proof -
  have "r \<in> set rs" "same_key r r" using assms by (auto simp: newest_def same_key_def)
  then have "find (same_key r) rs \<noteq> None" by (auto simp: find_None_iff)
  then obtain r' where f: "find (same_key r) rs = Some r'" by auto
  then have r': "same_key r r'" "r' \<in> set rs" by (auto dest: find_SomeD)
  then have eq: "same_key r' = same_key r" by (auto simp: same_key_def fun_eq_iff)
  have "newest rs r'" using assms r' by (auto simp: newest_def same_key_def)
  with f eq r' show ?thesis by (auto simp: is_kept_def same_key_def)
qed

lemma fst_stamps: "map fst (map stamp xs) = map (\<lambda>s. - seconds s) xs"
  by (induction xs) (simp_all add: stamp_def)

lemma snd_stamps: "map snd (map stamp xs) = map url xs"
  by (induction xs) (simp_all add: stamp_def)

lemma stamps_kept: "stamp ` {r. is_kept rs r} = stamp ` {r. newest rs r}"
proof
  show "stamp ` {r. is_kept rs r} \<subseteq> stamp ` {r. newest rs r}"
    by (auto simp: is_kept_def)
  show "stamp ` {r. newest rs r} \<subseteq> stamp ` {r. is_kept rs r}"
  proof
    fix p assume "p \<in> stamp ` {r. newest rs r}"
    then obtain r where r: "newest rs r" "p = stamp r" by auto
    then obtain r' where "is_kept rs r'" "stamp r' = stamp r"
      using newest_has_kept [of rs r] by (auto simp: stamp_def)
    with r have "p = stamp r'" "r' \<in> {r. is_kept rs r}" by simp_all
    then show "p \<in> stamp ` {r. is_kept rs r}" by (rule image_eqI)
  qed
qed

lemma set_stamps:
  "set (map stamp (num_sorted (concat results))) = stamp ` {r. newest (concat results) r}"
proof -
  have "set (num_sorted (concat results)) = {r. is_kept (concat results) r}"
    using num_sorted_set by blast
  then show ?thesis by (simp add: stamps_kept)
qed

lemma sorted_stamps_fst: "sorted (map fst (map stamp (num_sorted (concat results))))"
  unfolding fst_stamps num_sorted_def by (rule sorted_sort_key)

lemma distinct_stamps_fst:
  assumes "\<forall>a\<in>set (concat results). \<forall>b\<in>set (concat results).
             newest (concat results) a \<and> newest (concat results) b
             \<and> seconds a = seconds b \<longrightarrow> url a = url b"
  shows "distinct (map fst (map stamp (num_sorted (concat results))))"
proof -
  let ?out = "num_sorted (concat results)"
  have du: "distinct (map url ?out)" by (rule num_sorted_distinct)
  then have d: "distinct ?out" and inj: "inj_on url (set ?out)"
    by (simp_all add: distinct_map)
  have "inj_on (\<lambda>s. - seconds s) (set ?out)"
  proof (rule inj_onI)
    fix a b assume a: "a \<in> set ?out" and b: "b \<in> set ?out"
      and eq: "- seconds a = - seconds b"
    from a b have "is_kept (concat results) a" "is_kept (concat results) b"
      by (simp_all add: num_sorted_set)
    then have "newest (concat results) a" "newest (concat results) b"
      by (simp_all add: is_kept_def)
    moreover then have "a \<in> set (concat results)" "b \<in> set (concat results)"
      by (simp_all add: newest_def)
    ultimately have "url a = url b" using assms eq by auto
    with inj a b show "a = b" by (auto dest: inj_onD)
  qed
  with d have "distinct (map (\<lambda>s. - seconds s) ?out)" by (simp add: distinct_map)
  then show ?thesis by (simp only: fst_stamps)
qed

lemma num_order_insensitive:
  assumes perm: "mset results' = mset results"
    and ties: "\<forall>a\<in>set (concat results). \<forall>b\<in>set (concat results).
             newest (concat results) a \<and> newest (concat results) b
             \<and> seconds a = seconds b \<longrightarrow> url a = url b"
  shows "map url (num_sorted (concat results')) = map url (num_sorted (concat results))"
proof -
  let ?L = "map stamp (num_sorted (concat results))"
  let ?L' = "map stamp (num_sorted (concat results'))"
  have "set results' = set results" using perm by (rule mset_eq_setD)
  then have sc: "set (concat results') = set (concat results)" by simp
  then have nw: "newest (concat results') = newest (concat results)" by (rule newest_cong)
  have ties': "\<forall>a\<in>set (concat results'). \<forall>b\<in>set (concat results').
             newest (concat results') a \<and> newest (concat results') b
             \<and> seconds a = seconds b \<longrightarrow> url a = url b"
    unfolding sc nw by (rule ties)
  have sets: "set ?L' = set ?L" by (simp only: set_stamps nw)
  have "map fst ?L' = map fst ?L"
  proof (rule sorted_distinct_set_unique)
    show "sorted (map fst ?L')" "sorted (map fst ?L)" by (rule sorted_stamps_fst)+
    show "distinct (map fst ?L')" using ties' by (rule distinct_stamps_fst)
    show "distinct (map fst ?L)" using ties by (rule distinct_stamps_fst)
    show "set (map fst ?L') = set (map fst ?L)" using sets by (simp only: set_map)
  qed
  moreover have "inj_on fst (set ?L' \<union> set ?L)"
    using distinct_stamps_fst [OF ties] sets by (simp only: distinct_map Un_absorb)
  ultimately have "?L' = ?L" by (simp only: inj_on_map_eq_map)
  then have "map snd ?L' = map snd ?L" by simp
  then show ?thesis by (simp only: snd_stamps)
qed

subsection \<open>The merge on numeric records\<close>

lemma js_gt_numbers: "js_gt e (JNum a) (JNum b) = Inr (b < a)"
  by (simp add: js_gt_def)

lemma js_sub_numbers: "js_sub e (JNum a) (JNum b) = Inr (Fin (a - b))"
  by (simp add: js_sub_def)

lemma numeric_seconds: "created_at r = JNum q \<Longrightarrow> seconds r = q"
  by (simp add: seconds_def)

lemma numeric_Cons: "numeric (r # rs) = ((\<exists>q. created_at r = JNum q) \<and> numeric rs)"
  by (simp add: numeric_def)

lemma numeric_append: "numeric (rs @ rs') = (numeric rs \<and> numeric rs')"
  by (auto simp: numeric_def)

lemma numeric_cong: "set rs' = set rs \<Longrightarrow> numeric rs' = numeric rs"
  by (simp add: numeric_def)

lemma merge_step_numeric:
  assumes sv: "created_at sv = JNum q" and m: "numeric (map snd m)"
  shows "merge_step e m sv = Inr (num_step m sv)"
proof (cases "map_of m (url sv)")
  case None
  then show ?thesis by (simp add: merge_step_def num_step_def)
next
  case (Some existing)
  then have "existing \<in> set (map snd m)"
    by (metis map_of_SomeD image_eqI set_map snd_conv)
  then obtain q' where q': "created_at existing = JNum q'"
    using m by (auto simp: numeric_def)
  show ?thesis
    using Some sv q'
    by (simp add: merge_step_def num_step_def js_gt_numbers numeric_seconds)
qed

lemma values_update: "set (map snd (AList.update k v m)) \<subseteq> insert v (set (map snd m))"
  by (induction m) auto

lemma num_step_numeric:
  assumes "created_at sv = JNum q" and "numeric (map snd m)"
  shows "numeric (map snd (num_step m sv))"
proof -
  have "set (map snd (num_step m sv)) \<subseteq> insert sv (set (map snd m))"
    using values_update [of "url sv" sv m]
    by (auto simp: num_step_def split: option.splits)
  then show ?thesis using assms unfolding numeric_def by blast
qed

lemma merge_relay_numeric:
  "numeric rs \<Longrightarrow> numeric (map snd m) \<Longrightarrow>
     merge_relay e m rs = Inr (foldl num_step m rs) \<and> numeric (map snd (foldl num_step m rs))"
proof (induction rs arbitrary: m)
  case Nil
  then show ?case by simp
next
  case (Cons r rs)
  from Cons.prems(1) obtain q where q: "created_at r = JNum q" and rs: "numeric rs"
    by (auto simp: numeric_Cons)
  have step: "merge_step e m r = Inr (num_step m r)"
    using q Cons.prems(2) by (rule merge_step_numeric)
  have "numeric (map snd (num_step m r))"
    using q Cons.prems(2) by (rule num_step_numeric)
  from Cons.IH [OF rs this] step show ?case by simp
qed

lemma merge_from_numeric:
  "numeric (concat results) \<Longrightarrow> numeric (map snd m) \<Longrightarrow>
     merge_from e m results = Inr (foldl num_step m (concat results))"
proof (induction results arbitrary: m)
  case Nil
  then show ?case by simp
next
  case (Cons rs results)
  from Cons.prems(1) have rs: "numeric rs" and rest: "numeric (concat results)"
    by (simp_all add: numeric_append)
  from merge_relay_numeric [OF rs Cons.prems(2), of e]
  have r: "merge_relay e m rs = Inr (foldl num_step m rs)"
    and n: "numeric (map snd (foldl num_step m rs))" by simp_all
  from Cons.IH [OF rest n] r show ?case by simp
qed

lemma merge_results_numeric:
  "numeric (concat results) \<Longrightarrow> merge_results e results = Inr (num_merge (concat results))"
  using merge_from_numeric [of results "[]" e]
  by (simp add: merge_results_def num_merge_def numeric_def)

lemma num_merge_numeric:
  assumes "numeric rs"
  shows "numeric (map snd (num_merge rs))"
proof -
  have "numeric (map snd ([] :: server_map))" by (simp add: numeric_def)
  from merge_relay_numeric [OF assms this] show ?thesis by (simp add: num_merge_def)
qed

lemma comparefn_numeric:
  assumes "created_at a = JNum p" and "created_at b = JNum q"
  shows "comparefn e a b = Inr (Fin (seconds b - seconds a))"
  using assms by (simp add: comparefn_def js_sub_numbers numeric_seconds)

lemma sorted_records_numeric:
  assumes contract: "sort_contract (ArraySort e)" and num: "numeric (concat results)"
  shows "sorted_records e results = Inr (num_sorted (concat results))"
proof -
  let ?xs = "map snd (num_merge (concat results))"
  have nx: "numeric ?xs" using num by (rule num_merge_numeric)
  have "\<exists>v. comparefn e x y = Inr (Fin v) \<and> sgn v = sgn (- seconds x - (- seconds y))"
    if "x \<in> set ?xs" "y \<in> set ?xs" for x y
  proof -
    from that nx obtain p q where "created_at x = JNum p" "created_at y = JNum q"
      unfolding numeric_def by blast
    then have "comparefn e x y = Inr (Fin (seconds y - seconds x))"
      by (rule comparefn_numeric)
    then show ?thesis by simp
  qed
  then have "\<forall>x\<in>set ?xs. \<forall>y\<in>set ?xs.
      \<exists>v. comparefn e x y = Inr (Fin v) \<and> sgn v = sgn (- seconds x - (- seconds y))"
    by blast
  moreover have "(\<forall>x\<in>set ?xs. \<forall>y\<in>set ?xs.
      \<exists>v. comparefn e x y = Inr (Fin v) \<and> sgn v = sgn (- seconds x - (- seconds y)))
      \<longrightarrow> ArraySort e (comparefn e) ?xs = Inr (sort_key (\<lambda>s. - seconds s) ?xs)"
    using contract [unfolded sort_contract_def, THEN spec, THEN spec, THEN spec,
          of ?xs "comparefn e" "\<lambda>s. - seconds s"] .
  ultimately have "ArraySort e (comparefn e) ?xs = Inr (sort_key (\<lambda>s. - seconds s) ?xs)"
    by (rule rev_mp)
  then show ?thesis
    using merge_results_numeric [OF num, of e]
    by (simp add: sorted_records_def num_sorted_def)
qed

subsection \<open>The insertion sort meets the contract\<close>

lemma not_after_sgn: "sgn v = sgn (a - b) \<Longrightarrow> not_after (Fin v) = (a \<le> (b :: rat))"
  by (auto simp: sgn_if split: if_splits)

lemma insert_sorted_key:
  "\<forall>y\<in>set ys. \<exists>v. cmp x y = Inr (Fin v) \<and> sgn v = sgn (f x - (f y :: rat)) \<Longrightarrow>
     insert_sorted cmp x ys = Inr (insort_key f x ys)"
proof (induction ys)
  case Nil
  show ?case by simp
next
  case (Cons y ys)
  then obtain v where v: "cmp x y = Inr (Fin v)" "sgn v = sgn (f x - f y)" by auto
  from v(2) have "not_after (Fin v) = (f x \<le> f y)" by (rule not_after_sgn)
  with v Cons show ?case by simp
qed

lemma insertion_sort_key:
  "\<forall>x\<in>set xs. \<forall>y\<in>set xs. \<exists>v. cmp x y = Inr (Fin v) \<and> sgn v = sgn (f x - (f y :: rat)) \<Longrightarrow>
     insertion_sort cmp xs = Inr (sort_key f xs)"
proof (induction xs)
  case Nil
  show ?case by simp
next
  case (Cons x xs)
  then have "insertion_sort cmp xs = Inr (sort_key f xs)" by simp
  moreover have "insert_sorted cmp x (sort_key f xs) = Inr (insort_key f x (sort_key f xs))"
    using Cons.prems by (intro insert_sorted_key) simp
  ultimately show ?case by simp
qed

lemma insertion_sort_contract: "sort_contract insertion_sort"
  unfolding sort_contract_def by (intro allI impI insertion_sort_key)

lemma run_engine_contract: "sort_contract (ArraySort run_engine)"
  by (simp add: run_engine_def insertion_sort_contract)

subsection \<open>The claims about the merge\<close>

text \<open>
  Claim C8, as the code has it, for every engine. When every \<open>created_at\<close> of the
  input is a finite number, merging the list of per-relay results concatenated with
  itself returns the same map, the same sorted records and the same sorted urls as
  merging the list once.
\<close>

theorem merge_idempotent:
  assumes "numeric (concat results)"
  shows "(\<exists>m. merge_results e results = Inr m \<and> merge_results e (results @ results) = Inr m)
   \<and> sorted_records e (results @ results) = sorted_records e results
   \<and> sortedServers e (results @ results) = sortedServers e results"
proof -
  have twice: "numeric (concat (results @ results))"
    using assms by (simp add: numeric_append)
  have "merge_results e (results @ results) = merge_results e results"
    using merge_results_numeric [OF twice, of e] merge_results_numeric [OF assms, of e]
    by (simp only: num_merge_twice)
  then show ?thesis
    using merge_results_numeric [OF assms, of e]
    by (simp add: sortedServers_def sorted_records_def)
qed

text \<open>
  Claim C2, as the code has it, for an engine whose sort does what the language says.
  When every \<open>created_at\<close> of the input is a finite number and no two different urls
  have the same newest timestamp, the merge returns a sorted list of urls, and returns
  the same list for every permutation of the list of per-relay results. Records that
  share both url and timestamp do not matter here: whichever of them is kept, the url
  and its place are the same.
\<close>

theorem merge_order_insensitive:
  assumes contract: "sort_contract (ArraySort e)"
    and num: "numeric (concat results)"
    and perm: "mset results' = mset results"
    and ties: "\<forall>a\<in>set (concat results). \<forall>b\<in>set (concat results).
             newest (concat results) a \<and> newest (concat results) b
             \<and> seconds a = seconds b \<longrightarrow> url a = url b"
  shows "\<exists>out. sortedServers e results = Inr out \<and> sortedServers e results' = Inr out"
proof -
  have "set results' = set results" using perm by (rule mset_eq_setD)
  then have "set (concat results') = set (concat results)" by simp
  then have "numeric (concat results') = numeric (concat results)" by (rule numeric_cong)
  then have num': "numeric (concat results')" using num by blast
  have "sortedServers e results = Inr (map url (num_sorted (concat results)))"
    using sorted_records_numeric [OF contract num] by (simp add: sortedServers_def)
  moreover have "sortedServers e results' = Inr (map url (num_sorted (concat results')))"
    using sorted_records_numeric [OF contract num'] by (simp add: sortedServers_def)
  ultimately show ?thesis
    using num_order_insensitive [OF perm ties] by simp
qed


text \<open>
  Claim C4, as the code has it, for an engine whose sort does what the language says.
  When every \<open>created_at\<close> of the input is a finite number, the merge returns a list
  that consists of exactly the kept records: a record is in it if and only if no input
  record with its url has a greater timestamp and it is the first input record, in
  processing order, with its url and timestamp. No two records of the output share a
  url. So of two input records with one url the older one is never retained, and of
  two with equal timestamps only the one processed first can be.
\<close>

theorem merge_keeps_newest_first:
  assumes "sort_contract (ArraySort e)" and "numeric (concat results)"
  shows "\<exists>out. sorted_records e results = Inr out
           \<and> (\<forall>r. r \<in> set out \<longleftrightarrow> is_kept (concat results) r)
           \<and> distinct (map url out)"
  using sorted_records_numeric [OF assms] num_sorted_set [of _ results]
    num_sorted_distinct [of results]
  by simp

section \<open>The orchestrator\<close>

subsection \<open>Batches\<close>

declare batches_from.simps [simp del]

lemma slice_length: "length (slice xs i (i + n)) = min n (length xs - i)"
  by (simp add: slice_def)

lemma concat_batches_from: "concat (batches_from i xs) = drop i xs"
proof (induction i xs rule: batches_from.induct)
  case (1 i xs)
  show ?case
  proof (cases "i < length xs")
    case True
    have "take concurrency (drop i xs) @ drop (i + concurrency) xs = drop i xs"
      by (metis add.commute append_take_drop_id drop_drop)
    with True 1 show ?thesis
      by (subst batches_from.simps) (simp add: slice_def)
  next
    case False
    then show ?thesis by (subst batches_from.simps) simp
  qed
qed

lemma batches_from_sizes:
  "b \<in> set (batches_from i xs) \<Longrightarrow> b \<noteq> [] \<and> length b \<le> concurrency"
proof (induction i xs rule: batches_from.induct)
  case (1 i xs)
  show ?case
  proof (cases "i < length xs")
    case True
    from "1.prems" have "b = slice xs i (i + concurrency) \<or> b \<in> set (batches_from (i + concurrency) xs)"
      by (subst (asm) batches_from.simps) (simp add: True)
    then show ?thesis
    proof
      assume b: "b = slice xs i (i + concurrency)"
      then have "length b = min concurrency (length xs - i)" by (simp add: slice_length)
      with True show ?thesis by (auto simp: concurrency_def)
    next
      assume "b \<in> set (batches_from (i + concurrency) xs)"
      with True 1 show ?thesis by simp
    qed
  next
    case False
    with "1.prems" show ?thesis by (subst (asm) batches_from.simps) simp
  qed
qed

lemma batches_from_full:
  "b \<in> set (butlast (batches_from i xs)) \<Longrightarrow> length b = concurrency"
proof (induction i xs rule: batches_from.induct)
  case (1 i xs)
  show ?case
  proof (cases "i < length xs")
    case True
    have unfold: "batches_from i xs = slice xs i (i + concurrency) # batches_from (i + concurrency) xs"
      by (subst batches_from.simps) (simp add: True)
    show ?thesis
    proof (cases "batches_from (i + concurrency) xs = []")
      case e: True
      with "1.prems" unfold show ?thesis by simp
    next
      case ne: False
      then have more: "i + concurrency < length xs"
        by (subst (asm) batches_from.simps) (simp split: if_splits)
      from "1.prems" unfold ne
      have "b = slice xs i (i + concurrency) \<or> b \<in> set (butlast (batches_from (i + concurrency) xs))"
        by simp
      then show ?thesis
      proof
        assume "b = slice xs i (i + concurrency)"
        with more show ?thesis by (simp add: slice_length)
      next
        assume "b \<in> set (butlast (batches_from (i + concurrency) xs))"
        with True 1 show ?thesis by simp
      qed
    qed
  next
    case False
    with "1.prems" show ?thesis by (subst (asm) batches_from.simps) simp
  qed
qed

lemma orch_step_inv:
  assumes "orch_step xs s s'"
    and "length (pending s) \<le> concurrency \<and> (\<not> awaiting s \<longrightarrow> pending s = [])"
  shows "length (pending s') \<le> concurrency \<and> (\<not> awaiting s' \<longrightarrow> pending s' = [])"
  using assms
proof (cases rule: orch_step.cases)
  case launch
  then show ?thesis by (simp add: slice_length)
next
  case (settle q)
  then show ?thesis using assms(2) by (simp add: length_remove1)
next
  case resume
  then show ?thesis by simp
qed

lemma orch_reachable_inv:
  assumes "orch_reachable xs s"
  shows "length (pending s) \<le> concurrency \<and> (\<not> awaiting s \<longrightarrow> pending s = [])"
  using assms unfolding orch_reachable_def
proof (induction rule: rtranclp_induct)
  case base
  show ?case by (simp add: orch_init_def)
next
  case (step s s')
  then show ?case using orch_step_inv by blast
qed

text \<open>
  Claim C9. For a relay list of any length the loop cuts the list into consecutive
  batches: put together they are the list, none is empty or longer than
  \<open>concurrency\<close>, and all but the last have exactly \<open>concurrency\<close> relays. In every
  state the loop can reach, at most \<open>concurrency\<close> queries are pending, and none is
  pending whenever the loop is about to start a batch.
\<close>

theorem batches_bound_concurrency:
  "concat (batches allRelays) = allRelays
   \<and> (\<forall>b\<in>set (batches allRelays). b \<noteq> [] \<and> length b \<le> concurrency)
   \<and> (\<forall>b\<in>set (butlast (batches allRelays)). length b = concurrency)
   \<and> (\<forall>s. orch_reachable allRelays s \<longrightarrow>
         length (pending s) \<le> concurrency \<and> (\<not> awaiting s \<longrightarrow> pending s = []))"
  using batches_from_sizes [of _ 0 allRelays] batches_from_full [of _ 0 allRelays]
    orch_reachable_inv [of allRelays]
  by (simp add: batches_def concat_batches_from)

lemma thirteen_reach: "orch_reachable thirteen first_batch_started"
proof -
  have "orch_step thirteen orch_init first_batch_started"
    using orch_step.launch [of "orch_init :: nat orchestrator" thirteen]
    by (simp add: orch_init_def thirteen_def first_batch_started_def slice_def concurrency_def)
  then show ?thesis by (simp add: orch_reachable_def)
qed

text \<open>Thirteen relays: two full batches and one of a single relay.\<close>

theorem batches_bound_concurrency_witness:
  "orch_reachable thirteen first_batch_started
   \<and> length (pending first_batch_started) \<le> concurrency
   \<and> [13] \<in> set (batches thirteen) \<and> length [13::nat] \<le> concurrency
   \<and> [1, 2, 3, 4, 5, 6] \<in> set (butlast (batches thirteen))
   \<and> length [1, 2, 3, 4, 5, 6 :: nat] = concurrency"
proof -
  have b: "batches thirteen = [[1, 2, 3, 4, 5, 6], [7, 8, 9, 10, 11, 12], [13]]"
    by (simp add: batches_def thirteen_def slice_def concurrency_def batches_from.simps)
  show ?thesis
    using batches_bound_concurrency [of thirteen] thirteen_reach b
    by (simp add: concurrency_def)
qed

subsection \<open>Relay list\<close>

lemma wss_strings_prefix: "r \<in> set (wss_strings xs) \<Longrightarrow> prefix ''wss://'' r"
  by (induction xs rule: wss_strings.induct) (auto split: if_splits)

lemma length_core: "length coreRelays = 4"
  by (simp add: coreRelays_def)

lemma select_relays_shape:
  assumes "select_relays shuffle v = Inr rs"
  shows "\<exists>xs. v = JArr xs \<and>
     rs = coreRelays @ take maxAdditional
            (shuffle (filter (\<lambda>relay. relay \<notin> set coreRelays) (wss_strings xs)))"
  using assms by (cases v) (simp_all add: select_relays_def Let_def)

lemma allRelays_shape:
  "allRelays_of shuffle dir = coreRelays
   \<or> (\<exists>xs. dir = Online (JArr xs) \<and> allRelays_of shuffle dir = coreRelays @ take maxAdditional
            (shuffle (filter (\<lambda>relay. relay \<notin> set coreRelays) (wss_strings xs))))"
proof (cases dir)
  case (Online v)
  show ?thesis
  proof (cases "select_relays shuffle v")
    case (Inl e)
    with Online show ?thesis by (simp add: allRelays_of_def)
  next
    case (Inr rs)
    with Online select_relays_shape [OF Inr] show ?thesis
      by (auto simp: allRelays_of_def)
  qed
qed (simp_all add: allRelays_of_def)

text \<open>
  Claim C10. Whatever the directory answers and however the sort rearranges the
  candidates (it returns no relay that was not among them), the relay list starts
  with the four core relays, has at most 16 more, each of them a string starting with
  \<open>wss://\<close> that is no core relay, so that \<open>relaysSearched\<close> is at most 20; and
  when the directory gives no array of relays the list is the four core relays.
\<close>

theorem relay_list_shape:
  assumes "\<forall>xs. set (shuffle xs) \<subseteq> set xs"
  shows "take 4 (allRelays_of shuffle dir) = coreRelays
   \<and> length (drop 4 (allRelays_of shuffle dir)) \<le> 16
   \<and> (\<forall>r\<in>set (drop 4 (allRelays_of shuffle dir)). prefix ''wss://'' r \<and> r \<notin> set coreRelays)
   \<and> relaysSearched shuffle dir \<le> 20
   \<and> ((\<forall>xs. dir \<noteq> Online (JArr xs)) \<longrightarrow> allRelays_of shuffle dir = coreRelays)"
proof -
  have sh: "set (shuffle xs) \<subseteq> set xs" for xs
    using assms by blast
  from allRelays_shape [of shuffle dir] show ?thesis
  proof
    assume "allRelays_of shuffle dir = coreRelays"
    then show ?thesis by (simp add: relaysSearched_def length_core)
  next
    assume "\<exists>xs. dir = Online (JArr xs) \<and> allRelays_of shuffle dir = coreRelays @ take maxAdditional
            (shuffle (filter (\<lambda>relay. relay \<notin> set coreRelays) (wss_strings xs)))"
    then obtain xs where dir: "dir = Online (JArr xs)"
      and eq: "allRelays_of shuffle dir = coreRelays @ take maxAdditional
            (shuffle (filter (\<lambda>relay. relay \<notin> set coreRelays) (wss_strings xs)))"
      by blast
    let ?sel = "take maxAdditional (shuffle (filter (\<lambda>relay. relay \<notin> set coreRelays) (wss_strings xs)))"
    have len: "length ?sel \<le> 16" by (simp add: maxAdditional_def)
    have mem: "prefix ''wss://'' r \<and> r \<notin> set coreRelays" if "r \<in> set ?sel" for r
    proof -
      from that have "r \<in> set (shuffle (filter (\<lambda>relay. relay \<notin> set coreRelays) (wss_strings xs)))"
        by (rule in_set_takeD)
      then have "r \<in> set (filter (\<lambda>relay. relay \<notin> set coreRelays) (wss_strings xs))"
        using sh by blast
      then show ?thesis by (auto dest: wss_strings_prefix)
    qed
    have t: "take 4 (allRelays_of shuffle dir) = coreRelays"
      and d: "drop 4 (allRelays_of shuffle dir) = ?sel"
      by (simp_all add: eq length_core)
    have n: "relaysSearched shuffle dir \<le> 20"
      using len by (simp add: relaysSearched_def eq length_core)
    have c: "(\<forall>xs. dir \<noteq> Online (JArr xs)) \<longrightarrow> allRelays_of shuffle dir = coreRelays"
      using dir by blast
    show ?thesis
      using len mem n c unfolding t d by blast
  qed
qed

text \<open>A directory that offers one new relay, and a directory out of reach.\<close>

theorem relay_list_shape_witness:
  "(\<forall>xs. set (rev xs) \<subseteq> set (xs :: string list))
   \<and> allRelays_of rev directory_answer = coreRelays @ [''wss://relay.example'']
   \<and> take 4 (allRelays_of rev directory_answer) = coreRelays
   \<and> relaysSearched rev directory_answer \<le> 20
   \<and> allRelays_of rev Unreachable = coreRelays"
proof -
  have h: "\<forall>xs. set (rev xs) \<subseteq> set (xs :: string list)" by simp
  have e: "allRelays_of rev directory_answer = coreRelays @ [''wss://relay.example'']"
    by (simp add: allRelays_of_def select_relays_def directory_answer_def maxAdditional_def
        coreRelays_def)
  show ?thesis
    using relay_list_shape [OF h, of directory_answer] relay_list_shape [OF h, of Unreachable] h e
    by simp
qed

section \<open>The relay client\<close>

subsection \<open>Callbacks never throw\<close>

lemma parse_never_throws: "\<exists>r. parseBlossomServer event = Inr r"
  by (cases "parse_body event") (simp_all add: parseBlossomServer_def)

lemma on_message_never_throws: "\<exists>c'. on_message c frame = Inr c'"
  by (cases "message_body c frame") (simp_all add: on_message_def)

text \<open>
  Claim C7. \<open>parseBlossomServer\<close> returns a record or \<open>null\<close> on every value, never an
  exception, although the body of its \<open>try\<close> block does throw (\<open>parse_body_throws\<close>);
  and the message handler of a connection never throws either, so no event ends the
  processing of a relay.
\<close>

theorem parse_total:
  "(\<exists>r. parseBlossomServer event = Inr r) \<and> (\<exists>c'. on_message c frame = Inr c')"
  using parse_never_throws on_message_never_throws by blast

lemma parse_body_throws: "parse_body JUndefined = Inl TypeError"
  by (simp add: parse_body_def)

lemma on_event_never_throws: "\<exists>c'. on_event c ev = Inr c'"
  using on_message_never_throws by (cases ev) (simp_all add: on_event_def)

lemma run_events_never_throws: "\<exists>c'. run_events c evs = Inr c'"
proof (induction evs arbitrary: c)
  case Nil
  show ?case by simp
next
  case (Cons ev evs)
  obtain c1 where "on_event c ev = Inr c1" using on_event_never_throws by blast
  with Cons [of c1] show ?case by simp
qed

text \<open>
  Claim C1, as the code has it. No sequence of callbacks of a connection throws. While
  the promise of a query is pending, an unsolicited close fulfils it with the list
  accumulated so far. A transport error rejects it, and the \<open>catch\<close> of the
  orchestrator turns the rejection into the empty list: the caller sees no failure, and
  the records accumulated on that connection are dropped.
\<close>

theorem relay_failure_contained:
  "(\<exists>c'. run_events c evs = Inr c')
   \<and> (promise c = Pending \<longrightarrow>
        on_event c Close = Inr (c\<lparr>timer := False, promise := Fulfilled\<rparr>)
        \<and> batch_result (c\<lparr>timer := False, promise := Fulfilled\<rparr>) = Some (servers c))
   \<and> (promise c = Pending \<longrightarrow>
        on_event c (Ws_error msg)
          = Inr (c\<lparr>timer := False, promise := Rejected (Error (''WebSocket error: '' @ msg))\<rparr>)
        \<and> batch_result (c\<lparr>timer := False, promise := Rejected (Error (''WebSocket error: '' @ msg))\<rparr>)
          = Some [])"
  using run_events_never_throws [of c evs]
  by (simp add: on_event_def resolve_def reject_def clearTimeout_def batch_result_def)

lemma good_event_parses: "parseBlossomServer good_event = Inr (Some good_record)"
  by (simp add: parseBlossomServer_def parse_body_def good_event_def good_record_def d_tag_def
      tag_is_def second_or_null_def)

text \<open>
  A connection that delivers one announcement and then fails: the promise is rejected,
  not fulfilled, and the orchestrator gets the empty list although one record had been
  accumulated.
\<close>

theorem error_rejects_counterexample:
  "run_events (client_init ''blossom-1'') failing_connection = Inr failed_client
   \<and> promise failed_client = Rejected (Error ''WebSocket error: reset'')
   \<and> servers failed_client = [good_record]
   \<and> batch_result failed_client = Some []"
  by (simp add: failing_connection_def failed_client_def client_init_def on_event_def
      on_message_def message_body_def is_for_def good_event_parses reject_def clearTimeout_def
      batch_result_def)

text \<open>A pending query with one accumulated record, closed or failing.\<close>

theorem relay_failure_contained_witness:
  "promise pending_client = Pending
   \<and> on_event pending_client Close
        = Inr (pending_client\<lparr>timer := False, promise := Fulfilled\<rparr>)
   \<and> batch_result (pending_client\<lparr>timer := False, promise := Fulfilled\<rparr>) = Some [good_record]
   \<and> batch_result
        (pending_client\<lparr>timer := False, promise := Rejected (Error (''WebSocket error: '' @ ''reset''))\<rparr>)
        = Some []"
proof -
  have p: "promise pending_client = Pending" by (simp add: pending_client_def)
  have s: "servers pending_client = [good_record]" by (simp add: pending_client_def)
  show ?thesis
    using relay_failure_contained [of pending_client "[]" "''reset''"] p s by simp
qed

subsection \<open>The parser on concrete events\<close>

lemma tags_good: "tags_of good_event = [d_tag, JArr [JStr ''name'', JStr ''X'']]"
  by (simp add: tags_of_def property_def good_event_def)

text \<open>
  An event whose first \<open>d\<close> tag carries an \<open>https://\<close> url, followed by a \<open>null\<close>
  entry in the tag list: the search for the \<open>name\<close> tag reads \<open>null[0]\<close>, the
  TypeError is caught, and no record is returned.
\<close>

theorem parse_null_tag_counterexample:
  "first_tag ''d'' null_tag_event = Some d_tag
   \<and> get d_tag ''1'' = Inr (JStr ''https://x.example'')
   \<and> prefix ''https://'' ''https://x.example''
   \<and> parseBlossomServer null_tag_event = Inr None"
  by (simp add: first_tag_def tags_of_def property_def null_tag_event_def d_tag_def has_key_def
      parseBlossomServer_def parse_body_def tag_is_def)

text \<open>A well-formed announcement with a \<open>name\<close> tag and no \<open>description\<close> tag.\<close>

theorem parse_valid_event_witness:
  "tags_of good_event = [d_tag, JArr [JStr ''name'', JStr ''X'']]
   \<and> first_tag ''d'' good_event = Some d_tag
   \<and> get d_tag ''1'' = Inr (JStr ''https://x.example'')
   \<and> prefix ''https://'' ''https://x.example''
   \<and> parseBlossomServer good_event = Inr (Some good_record)"
proof -
  note t = tags_good
  have n: "\<forall>t\<in>set (tags_of good_event). t \<noteq> JNull \<and> t \<noteq> JUndefined"
    by (simp add: tags_good d_tag_def)
  have d: "first_tag ''d'' good_event = Some d_tag"
    by (simp add: first_tag_def tags_good has_key_def d_tag_def)
  have u: "get d_tag ''1'' = Inr (JStr ''https://x.example'')"
    by (simp add: d_tag_def)
  have s: "prefix ''https://'' ''https://x.example''" by simp
  have nm: "second_of (first_tag ''name'' good_event) = JStr ''X''"
    by (simp add: first_tag_def tags_good has_key_def d_tag_def second_of_def property_def)
  have ds: "second_of (first_tag ''description'' good_event) = JNull"
    by (simp add: first_tag_def tags_good has_key_def d_tag_def second_of_def property_def)
  have pr: "property good_event ''pubkey'' = JStr ''pk''"
    "property good_event ''created_at'' = JNum 100"
    "property good_event ''id'' = JStr ''e1''"
    by (simp_all add: property_def good_event_def)
  show ?thesis
    using parse_valid_event [OF n d u s] t d u s
    by (simp add: nm ds pr good_record_def)
qed

text \<open>An insecure url, an event without a \<open>d\<close> tag, and a \<open>d\<close> tag without a value.\<close>

theorem parse_rejects_witness:
  "first_tag ''d'' (JObj [(''tags'', JArr [JArr [JStr ''d'', JStr ''http://x.example'']])])
     = Some (JArr [JStr ''d'', JStr ''http://x.example''])
   \<and> \<not> prefix ''https://'' ''http://x.example''
   \<and> parseBlossomServer (JObj [(''tags'', JArr [JArr [JStr ''d'', JStr ''http://x.example'']])])
       = Inr None
   \<and> first_tag ''d'' (JObj [(''tags'', JArr [JArr [JStr ''name'', JStr ''n'']])]) = None
   \<and> parseBlossomServer (JObj [(''tags'', JArr [JArr [JStr ''name'', JStr ''n'']])]) = Inr None
   \<and> first_tag ''d'' (JObj [(''tags'', JArr [JArr [JStr ''d'']])]) = Some (JArr [JStr ''d''])
   \<and> get (JArr [JStr ''d'']) ''1'' = Inr JUndefined
   \<and> parseBlossomServer (JObj [(''tags'', JArr [JArr [JStr ''d'']])]) = Inr None"
proof -
  let ?e1 = "JObj [(''tags'', JArr [JArr [JStr ''d'', JStr ''http://x.example'']])]"
  let ?e2 = "JObj [(''tags'', JArr [JArr [JStr ''name'', JStr ''n'']])]"
  let ?e3 = "JObj [(''tags'', JArr [JArr [JStr ''d'']])]"
  have f1: "first_tag ''d'' ?e1 = Some (JArr [JStr ''d'', JStr ''http://x.example''])"
    by (simp add: first_tag_def tags_of_def property_def has_key_def)
  have f2: "first_tag ''d'' ?e2 = None"
    by (simp add: first_tag_def tags_of_def property_def has_key_def)
  have f3: "first_tag ''d'' ?e3 = Some (JArr [JStr ''d''])"
    by (simp add: first_tag_def tags_of_def property_def has_key_def)
  have g3: "get (JArr [JStr ''d'']) ''1'' = Inr JUndefined" by simp
  have p1: "parseBlossomServer ?e1 = Inr None"
    by (rule parse_rejects) (simp add: f1)
  have p2: "parseBlossomServer ?e2 = Inr None"
    by (rule parse_rejects) (simp add: f2)
  have p3: "parseBlossomServer ?e3 = Inr None"
    by (rule parse_rejects) (simp add: f3)
  show ?thesis using f1 f2 f3 g3 p1 p2 p3 by simp
qed

section \<open>Merge: concrete runs\<close>

lemmas merge_eval = sortedServers_def sorted_records_def merge_results_def merge_step_def
  comparefn_def js_gt_def js_sub_def run_engine_def digits_number_def is_digit_def announce_def

lemma sort_contractD:
  assumes "sort_contract srt"
    and "\<forall>x\<in>set xs. \<forall>y\<in>set xs. \<exists>v. cmp x y = Inr (Fin v) \<and> sgn v = sgn (f x - f y)"
  shows "srt cmp xs = Inr (sort_key f xs)"
  using assms unfolding sort_contract_def by blast

lemma three_numeric: "numeric (concat three_relays)"
  by (simp add: numeric_def three_relays_def announce_def)

lemma three_sorted:
  "sorted_records run_engine three_relays =
     Inr [announce ''https://url1'' (JNum 200) ''b1'', announce ''https://url3'' (JNum 75) ''b2'',
          announce ''https://url2'' (JNum 50) ''a2'']"
  by (simp add: merge_eval three_relays_def)

lemma tie_sorted_ab: "sorted_records run_engine [[tie_a], [tie_b]] = Inr [tie_a, tie_b]"
  by (simp add: merge_eval tie_a_def tie_b_def)

lemma tie_sorted_ba: "sorted_records run_engine [[tie_b], [tie_a]] = Inr [tie_b, tie_a]"
  by (simp add: merge_eval tie_a_def tie_b_def)

text \<open>
  Two relays announce different servers with the same timestamp: the output lists them
  in the order the relays were merged, so swapping the two results changes it. The
  comparator is consistent on these records, so every sort that meets the contract
  returns these lists.
\<close>

theorem merge_order_counterexample:
  "mset [[tie_b], [tie_a]] = mset [[tie_a], [tie_b]]
   \<and> sortedServers run_engine [[tie_a], [tie_b]]
        = Inr [''https://a.example'', ''https://b.example'']
   \<and> sortedServers run_engine [[tie_b], [tie_a]]
        = Inr [''https://b.example'', ''https://a.example'']"
  by (simp add: sortedServers_def tie_sorted_ab tie_sorted_ba)
     (simp add: tie_a_def tie_b_def announce_def)


text \<open>
  Three announcements of one url with the timestamps \<open>"10"\<close>, \<open>9.5\<close> and \<open>"9"\<close>: the
  two strings are compared as strings, so \<open>"9"\<close> replaces \<open>"10"\<close>, after \<open>9.5\<close> failed
  to replace \<open>"10"\<close> as a number. The record kept is the one with \<open>"9"\<close>, although
  \<open>9.5 > "9"\<close> holds for another record of that url.
\<close>

theorem string_timestamp_counterexample:
  "sorted_records run_engine [[u1_s10, u1_n95, u1_s9]] = Inr [u1_s9]
   \<and> url u1_n95 = url u1_s9
   \<and> js_gt run_engine (created_at u1_n95) (created_at u1_s9) = Inr True"
  by (simp add: merge_eval u1_s10_def u1_n95_def u1_s9_def)

text \<open>
  The same three announcements and one of a second url with \<open>9.2\<close>. One pass keeps
  \<open>"9"\<close> for the first url and lists it after the second; a second pass over the same
  input replaces \<open>"9"\<close> by \<open>9.5\<close>, and the first url moves to the front.
\<close>

theorem merge_twice_counterexample:
  "sortedServers run_engine mixed_relay = Inr [''https://u2.example'', ''https://u1.example'']
   \<and> sortedServers run_engine (mixed_relay @ mixed_relay)
        = Inr [''https://u1.example'', ''https://u2.example'']"
  by (simp add: merge_eval mixed_relay_def u1_s10_def u1_n95_def u1_s9_def u2_n92_def)

text \<open>
  Neither run depends on the engine chosen: every engine that reads \<open>"9"\<close> as 9 and
  \<open>"10"\<close> as 10 and whose sort meets the contract gives these results.
\<close>

lemma mixed_merge_every_engine:
  assumes "StringToNumber e ''9'' = Fin 9" and "StringToNumber e ''10'' = Fin 10"
  shows "merge_results e mixed_relay
           = Inr [(''https://u1.example'', u1_s9), (''https://u2.example'', u2_n92)]"
    and "merge_results e (mixed_relay @ mixed_relay)
           = Inr [(''https://u1.example'', u1_n95), (''https://u2.example'', u2_n92)]"
    and "merge_results e [[u1_s10, u1_n95, u1_s9]] = Inr [(''https://u1.example'', u1_s9)]"
    and "js_gt e (created_at u1_n95) (created_at u1_s9) = Inr True"
  using assms
  by (simp_all add: merge_results_def merge_step_def js_gt_def announce_def
      mixed_relay_def u1_s10_def u1_n95_def u1_s9_def u2_n92_def)

lemma mixed_twice_every_engine:
  assumes nine: "StringToNumber e ''9'' = Fin 9" and ten: "StringToNumber e ''10'' = Fin 10"
    and contract: "sort_contract (ArraySort e)"
  shows "sortedServers e mixed_relay = Inr [''https://u2.example'', ''https://u1.example'']"
    and "sortedServers e (mixed_relay @ mixed_relay)
           = Inr [''https://u1.example'', ''https://u2.example'']"
    and "sorted_records e [[u1_s10, u1_n95, u1_s9]] = Inr [u1_s9]"
proof -
  let ?f = "\<lambda>r. - (case created_at r of JNum q \<Rightarrow> q | JStr s \<Rightarrow> 9 | _ \<Rightarrow> 0)"
  have s1: "ArraySort e (comparefn e) [u1_s9, u2_n92] = Inr (sort_key ?f [u1_s9, u2_n92])"
    using contract
    by (rule sort_contractD)
       (simp add: comparefn_def js_sub_def nine u1_s9_def u2_n92_def announce_def,
        rule exI [of _ "1 / 5"], simp)
  have s2: "ArraySort e (comparefn e) [u1_n95, u2_n92] = Inr (sort_key ?f [u1_n95, u2_n92])"
    using contract
    by (rule sort_contractD)
       (simp add: comparefn_def js_sub_def u1_n95_def u2_n92_def announce_def,
        rule exI [of _ "3 / 10"], simp)
  have s3: "ArraySort e (comparefn e) [u1_s9] = Inr (sort_key ?f [u1_s9])"
    using contract
    by (rule sort_contractD)
       (simp add: comparefn_def js_sub_def nine u1_s9_def announce_def)
  show "sortedServers e mixed_relay = Inr [''https://u2.example'', ''https://u1.example'']"
    using s1 mixed_merge_every_engine(1) [OF nine ten]
    by (simp add: sortedServers_def sorted_records_def u1_s9_def u2_n92_def announce_def)
  show "sortedServers e (mixed_relay @ mixed_relay)
           = Inr [''https://u1.example'', ''https://u2.example'']"
    using s2 mixed_merge_every_engine(2) [OF nine ten]
    by (simp add: sortedServers_def sorted_records_def u1_n95_def u2_n92_def announce_def)
  show "sorted_records e [[u1_s10, u1_n95, u1_s9]] = Inr [u1_s9]"
    using s3 mixed_merge_every_engine(3) [OF nine ten]
    by (simp add: sorted_records_def)
qed

text \<open>
  An announcement without \<open>created_at\<close>: every \<open>>\<close> with it is false and the
  comparator returns \<open>NaN\<close> for it, so the comparator is not consistent and the
  language leaves the order to the engine. Under the insertion sort the urls come out
  as a, c, b, and as b, a, c when the first two relays are swapped, although no two
  of them share a timestamp: without numbers for timestamps the output is neither
  sorted nor independent of the order of the relays.
\<close>

lemma missing_timestamp_run:
  "sortedServers run_engine
     [[announce ''a'' JUndefined ''ea''], [announce ''b'' (JNum 5) ''eb''],
      [announce ''c'' (JNum 9) ''ec'']] = Inr [''a'', ''c'', ''b'']
   \<and> sortedServers run_engine
     [[announce ''b'' (JNum 5) ''eb''], [announce ''a'' JUndefined ''ea''],
      [announce ''c'' (JNum 9) ''ec'']] = Inr [''b'', ''a'', ''c'']"
  by (simp add: merge_eval)


text \<open>
  The newer announcement of \<open>url1\<close> is kept and the older one is not; of two
  announcements with the same url and timestamp the first is kept.
\<close>

theorem merge_keeps_newest_first_witness:
  "sort_contract (ArraySort run_engine) \<and> numeric (concat three_relays)
   \<and> is_kept (concat three_relays) (announce ''https://url1'' (JNum 200) ''b1'')
   \<and> \<not> is_kept (concat three_relays) (announce ''https://url1'' (JNum 100) ''a1'')
   \<and> sorted_records run_engine three_relays =
        Inr [announce ''https://url1'' (JNum 200) ''b1'', announce ''https://url3'' (JNum 75) ''b2'',
             announce ''https://url2'' (JNum 50) ''a2'']
   \<and> numeric (concat [[tie_a], [tie_a\<lparr>event_id := JStr ''later''\<rparr>]])
   \<and> is_kept (concat [[tie_a], [tie_a\<lparr>event_id := JStr ''later''\<rparr>]]) tie_a
   \<and> \<not> is_kept (concat [[tie_a], [tie_a\<lparr>event_id := JStr ''later''\<rparr>]])
          (tie_a\<lparr>event_id := JStr ''later''\<rparr>)
   \<and> sorted_records run_engine [[tie_a], [tie_a\<lparr>event_id := JStr ''later''\<rparr>]] = Inr [tie_a]"
proof -
  let ?two = "[[tie_a], [tie_a\<lparr>event_id := JStr ''later''\<rparr>]]"
  have n2: "numeric (concat ?two)"
    by (simp add: numeric_def tie_a_def announce_def)
  have k1: "is_kept (concat three_relays) (announce ''https://url1'' (JNum 200) ''b1'')"
    by (simp add: is_kept_def newest_def same_key_def three_relays_def announce_def seconds_def)
  have k2: "\<not> is_kept (concat three_relays) (announce ''https://url1'' (JNum 100) ''a1'')"
    by (simp add: is_kept_def newest_def same_key_def three_relays_def announce_def seconds_def)
  have k3: "is_kept (concat ?two) tie_a"
    by (simp add: is_kept_def newest_def same_key_def tie_a_def announce_def seconds_def)
  have k4: "\<not> is_kept (concat ?two) (tie_a\<lparr>event_id := JStr ''later''\<rparr>)"
    by (simp add: is_kept_def newest_def same_key_def tie_a_def announce_def seconds_def)
  have s2: "sorted_records run_engine ?two = Inr [tie_a]"
    by (simp add: merge_eval tie_a_def)
  show ?thesis
    using merge_keeps_newest_first [OF run_engine_contract three_numeric]
      merge_keeps_newest_first [OF run_engine_contract n2]
      run_engine_contract three_numeric n2 k1 k2 k3 k4 three_sorted s2
    by simp
qed

text \<open>The scenario of three relays with the results in reverse order.\<close>

theorem merge_order_insensitive_witness:
  "sort_contract (ArraySort run_engine) \<and> numeric (concat three_relays)
   \<and> mset [[], [announce ''https://url1'' (JNum 200) ''b1'', announce ''https://url3'' (JNum 75) ''b2''],
         [announce ''https://url1'' (JNum 100) ''a1'', announce ''https://url2'' (JNum 50) ''a2'']]
     = mset three_relays
   \<and> sortedServers run_engine
        [[], [announce ''https://url1'' (JNum 200) ''b1'', announce ''https://url3'' (JNum 75) ''b2''],
         [announce ''https://url1'' (JNum 100) ''a1'', announce ''https://url2'' (JNum 50) ''a2'']]
     = Inr [''https://url1'', ''https://url3'', ''https://url2'']"
proof -
  let ?shuffled = "[[], [announce ''https://url1'' (JNum 200) ''b1'', announce ''https://url3'' (JNum 75) ''b2''],
         [announce ''https://url1'' (JNum 100) ''a1'', announce ''https://url2'' (JNum 50) ''a2'']]"
  have p: "mset ?shuffled = mset three_relays"
    by (simp add: three_relays_def)
  have t: "\<forall>a\<in>set (concat three_relays). \<forall>b\<in>set (concat three_relays).
             newest (concat three_relays) a \<and> newest (concat three_relays) b
             \<and> seconds a = seconds b \<longrightarrow> url a = url b"
    by (simp add: three_relays_def newest_def announce_def seconds_def)
  have "sortedServers run_engine three_relays
          = Inr [''https://url1'', ''https://url3'', ''https://url2'']"
    by (simp add: sortedServers_def three_sorted) (simp add: announce_def)
  then show ?thesis
    using merge_order_insensitive [OF run_engine_contract three_numeric p t]
      run_engine_contract three_numeric p
    by simp
qed

text \<open>The scenario of three relays, merged once and twice.\<close>

theorem merge_idempotent_witness:
  "numeric (concat three_relays)
   \<and> sortedServers run_engine (three_relays @ three_relays)
        = Inr [''https://url1'', ''https://url3'', ''https://url2'']"
proof -
  have "sortedServers run_engine three_relays
          = Inr [''https://url1'', ''https://url3'', ''https://url2'']"
    by (simp add: sortedServers_def three_sorted) (simp add: announce_def)
  then show ?thesis
    using merge_idempotent [OF three_numeric, of run_engine] three_numeric by simp
qed

end
